theory Spec2Isabelle
  imports Main
begin

section \<open>The record store: tables of database/schema.sql\<close>

text \<open>
  The engine of \<^verbatim>\<open>backend/src/models/Task.js\<close> keeps all of its state in three PostgreSQL
  tables. A table is a list of rows in insertion order; a statement reads or rewrites the
  lists. The surrogate key and the timestamp of a dependency row are left out: no statement
  of the engine reads them.

  The key columns are \<^verbatim>\<open>INTEGER\<close>: their values are integers between \<open>-2147483648\<close> and
  \<open>2147483647\<close>, and a statement with an integer parameter outside that range is refused
  (\<open>in_integer_range\<close>, below). A \<^verbatim>\<open>DATE\<close> is a day number and a \<^verbatim>\<open>TIMESTAMP\<close> a number
  of microseconds; how PostgreSQL reads either from a text is a parameter of the model
  (\<open>reader\<close>, below).

  \<^verbatim>\<open>status\<close> and \<^verbatim>\<open>priority\<close> carry a \<^verbatim>\<open>CHECK (... IN (...))\<close> constraint and are
  nullable: a stored value is one of the listed texts or \<^verbatim>\<open>NULL\<close> (\<open>None\<close>), which a
  \<^verbatim>\<open>CHECK\<close> lets pass. \<^verbatim>\<open>created_at\<close> and \<^verbatim>\<open>updated_at\<close> are nullable timestamps that
  default to \<^verbatim>\<open>CURRENT_TIMESTAMP\<close>.

  \<open>clock\<close> is the reading of \<^verbatim>\<open>CURRENT_TIMESTAMP\<close>. No statement moves it: the statements
  of one call all read the time of the call, where the server's differ by the time that
  passes between them.
\<close>

datatype task_status = ToDo | InProgress | Completed | Blocked

datatype task_priority = Low | Medium | High

record task =
  id_col :: int
  user_id :: "int option"
  title :: string
  description :: "string option"
  parent_task_id :: "int option"
  due_date :: "int option"
  priority :: "task_priority option"
  status :: "task_status option"
  created_at :: "int option"
  updated_at :: "int option"

record task_dependency =
  task_id :: int
  depends_on_task_id :: int

record db =
  users :: "int list"
  tasks :: "task list"
  task_dependencies :: "task_dependency list"
  tasks_id_seq :: int
  clock :: int


definition status_of_text :: "string \<Rightarrow> task_status option" where
  "status_of_text t =
     (if t = ''To Do'' then Some ToDo
      else if t = ''In Progress'' then Some InProgress
      else if t = ''Completed'' then Some Completed
      else if t = ''Blocked'' then Some Blocked
      else None)"


definition priority_of_text :: "string \<Rightarrow> task_priority option" where
  "priority_of_text t =
     (if t = ''Low'' then Some Low
      else if t = ''Medium'' then Some Medium
      else if t = ''High'' then Some High
      else None)"

text \<open>
  The SQL comparison \<^verbatim>\<open>status != 'Completed'\<close> in a \<^verbatim>\<open>WHERE\<close> clause: it is not true of a
  \<^verbatim>\<open>NULL\<close> status, so a row whose status is \<^verbatim>\<open>NULL\<close> is not selected.
\<close>

definition status_ne_Completed :: "task_status option \<Rightarrow> bool" where
  "status_ne_Completed st = (case st of None \<Rightarrow> False | Some v \<Rightarrow> v \<noteq> Completed)"

subsection \<open>Errors\<close>

text \<open>
  A statement that PostgreSQL refuses makes the driver throw; the engine itself throws
  \<^verbatim>\<open>new Error(message)\<close>. Both are values here. A refused statement changes no table.
  The errors are PostgreSQL's conditions by name, but \<open>NotAColumn\<close>, which stands for
  the conditions of an \<^verbatim>\<open>UPDATE\<close> whose \<^verbatim>\<open>SET\<close> list names something that is not a column
  it can assign: a syntax error for a reserved word, the refusal of a system column
  (\<^verbatim>\<open>ctid\<close>, \<^verbatim>\<open>xmin\<close>, ...), an undefined column for any other identifier.
\<close>

datatype pg_error =
    NotAColumn
  | MultipleAssignments
  | DatatypeMismatch
  | InvalidTextRepresentation
  | InvalidDatetimeFormat
  | NumericValueOutOfRange
  | StringDataRightTruncation
  | SequenceLimitExceeded
  | NotNullViolation
  | CheckViolation
  | ForeignKeyViolation
  | UniqueViolation

datatype error = Error string | PgError pg_error

text \<open>
  \<^verbatim>\<open>error.message.includes(phrase)\<close>, which the controllers use to choose a response. None
  of the driver's messages for the conditions above contains one of the phrases the
  controllers look for (\<^verbatim>\<open>circular dependency\<close>, \<^verbatim>\<open>not found\<close>, \<^verbatim>\<open>already exists\<close>,
  \<^verbatim>\<open>subtasks are not completed\<close>).
\<close>

definition starts_with :: "string \<Rightarrow> string \<Rightarrow> bool" where
  "starts_with s phrase = (take (length phrase) s = phrase)"

fun includes_str :: "string \<Rightarrow> string \<Rightarrow> bool" where
  "includes_str [] phrase = (phrase = [])"
| "includes_str (c # cs) phrase = (starts_with (c # cs) phrase \<or> includes_str cs phrase)"

fun message_includes :: "error \<Rightarrow> string \<Rightarrow> bool" where
  "message_includes (Error m) phrase = includes_str m phrase"
| "message_includes (PgError e) phrase = False"

subsection \<open>Integer parameters\<close>

text \<open>
  The driver sends every parameter as text and the server reads it at the type of the
  column it is compared with or assigned to. An integer outside the range of \<^verbatim>\<open>INTEGER\<close>
  makes the statement fail (\<^verbatim>\<open>22003\<close>, value out of range) before it reads or writes a row.
\<close>

definition in_integer_range :: "int \<Rightarrow> bool" where
  "in_integer_range n = (- 2147483648 \<le> n \<and> n \<le> 2147483647)"

definition parameters_ok :: "int list \<Rightarrow> bool" where
  "parameters_ok ps = list_all in_integer_range ps"

subsection \<open>Integrity constraints\<close>

text \<open>
  The primary key of \<^verbatim>\<open>tasks\<close>, its two foreign keys, the two foreign keys of
  \<^verbatim>\<open>task_dependencies\<close> and its \<^verbatim>\<open>UNIQUE(task_id, depends_on_task_id)\<close>. PostgreSQL checks
  them at the end of every statement.
\<close>

definition task_ids :: "db \<Rightarrow> int list" where
  "task_ids s = map id_col (tasks s)"

definition references_ok :: "int list \<Rightarrow> int option \<Rightarrow> bool" where
  "references_ok keys v = (case v of None \<Rightarrow> True | Some k \<Rightarrow> k \<in> set keys)"

definition primary_key_ok :: "db \<Rightarrow> bool" where
  "primary_key_ok s = distinct (task_ids s)"

definition foreign_keys_ok :: "db \<Rightarrow> bool" where
  "foreign_keys_ok s =
     (list_all (\<lambda>r. references_ok (users s) (user_id r)) (tasks s) \<and>
      list_all (\<lambda>r. references_ok (task_ids s) (parent_task_id r)) (tasks s) \<and>
      list_all (\<lambda>e. task_id e \<in> set (task_ids s) \<and> depends_on_task_id e \<in> set (task_ids s))
        (task_dependencies s))"

definition dependency_key :: "task_dependency \<Rightarrow> int \<times> int" where
  "dependency_key e = (task_id e, depends_on_task_id e)"

definition unique_dependencies_ok :: "db \<Rightarrow> bool" where
  "unique_dependencies_ok s = distinct (map dependency_key (task_dependencies s))"

definition integrity :: "db \<Rightarrow> bool" where
  "integrity s = (primary_key_ok s \<and> foreign_keys_ok s \<and> unique_dependencies_ok s)"

definition constraint_error :: "db \<Rightarrow> pg_error option" where
  "constraint_error s =
     (if primary_key_ok s \<and> unique_dependencies_ok s
      then (if foreign_keys_ok s then None else Some ForeignKeyViolation)
      else Some UniqueViolation)"

subsection \<open>Column types\<close>

text \<open>
  The columns of \<^verbatim>\<open>tasks\<close> with their types, by name.
\<close>

datatype column_type =
    IntegerColumn
  | VarcharColumn nat
  | TextColumn
  | DateColumn
  | TimestampColumn

definition tasks_column :: "string \<Rightarrow> column_type option" where
  "tasks_column c =
     (if c = ''id'' then Some IntegerColumn
      else if c = ''user_id'' then Some IntegerColumn
      else if c = ''title'' then Some (VarcharColumn 255)
      else if c = ''description'' then Some TextColumn
      else if c = ''parent_task_id'' then Some IntegerColumn
      else if c = ''due_date'' then Some DateColumn
      else if c = ''priority'' then Some (VarcharColumn 20)
      else if c = ''status'' then Some (VarcharColumn 20)
      else if c = ''created_at'' then Some TimestampColumn
      else if c = ''updated_at'' then Some TimestampColumn
      else None)"

text \<open>
  The value of a column in a row, and a value of any of the column types.
\<close>

datatype val =
    NullValue
  | IntegerValue int
  | TextValue string
  | DateValue int
  | TimestampValue int




text \<open>
  Assignment to a \<^verbatim>\<open>VARCHAR(n)\<close> column: a text longer than \<open>n\<close> characters is cut to \<open>n\<close>
  when all it loses is spaces, and refused otherwise.
\<close>

definition varchar :: "nat \<Rightarrow> string \<Rightarrow> pg_error + string" where
  "varchar n t =
     (if length t \<le> n then Inr t
      else if list_all (\<lambda>c. c = CHR '' '') (drop n t) then Inr (take n t)
      else Inl StringDataRightTruncation)"

section \<open>The statements of models/Task.js\<close>

subsection \<open>Task.create\<close>

text \<open>
  \<^verbatim>\<open>INSERT INTO tasks (user_id, title, description, parent_task_id, due_date, priority,
  status) VALUES (...) RETURNING *\<close>. \<^verbatim>\<open>priority = 'Medium'\<close> and \<^verbatim>\<open>status = 'To Do'\<close> are
  the defaults of the destructuring for an undefined field, and the due date is the
  \<^verbatim>\<open>Date\<close> that the route's \<^verbatim>\<open>toDate()\<close> has made of the request's text.

  The statement is refused, with nothing written, for an integer parameter out of range
  and for a title that does not fit \<^verbatim>\<open>VARCHAR(255)\<close>. Otherwise the key is the next value
  of the sequence, which fails at the end of the \<^verbatim>\<open>INTEGER\<close> range; an insert that a
  constraint then refuses does not give the value back.
\<close>

definition Task_create ::
    "int \<Rightarrow> string \<Rightarrow> string option \<Rightarrow> int option \<Rightarrow> int option \<Rightarrow>
     task_priority option \<Rightarrow> task_status option \<Rightarrow> db \<Rightarrow> (error + task) \<times> db" where
  "Task_create userId title' description' parentTaskId dueDate priority' status' s =
     (if parameters_ok (userId # (case parentTaskId of None \<Rightarrow> [] | Some p \<Rightarrow> [p])) then
        (case varchar 255 title' of
           Inl e \<Rightarrow> (Inl (PgError e), s)
         | Inr stored_title \<Rightarrow>
             if in_integer_range (tasks_id_seq s) then
               (let row = \<lparr>id_col = tasks_id_seq s, user_id = Some userId, title = stored_title,
                           description = description', parent_task_id = parentTaskId,
                           due_date = dueDate,
                           priority = Some (case priority' of None \<Rightarrow> Medium | Some p \<Rightarrow> p),
                           status = Some (case status' of None \<Rightarrow> ToDo | Some st \<Rightarrow> st),
                           created_at = Some (clock s), updated_at = Some (clock s)\<rparr>;
                    s1 = s\<lparr>tasks_id_seq := tasks_id_seq s + 1\<rparr>;
                    s2 = s1\<lparr>tasks := tasks s1 @ [row]\<rparr>
                in case constraint_error s2 of
                     Some e \<Rightarrow> (Inl (PgError e), s1)
                   | None \<Rightarrow> (Inr row, s2))
             else (Inl (PgError SequenceLimitExceeded), s))
      else (Inl (PgError NumericValueOutOfRange), s))"

subsection \<open>Task.findById\<close>

text \<open>
  \<^verbatim>\<open>SELECT t.*, ... WHERE t.id = $1 AND t.user_id = $2\<close>, of which the caller takes
  \<^verbatim>\<open>rows[0]\<close>. The joins only add display columns.
\<close>

definition Task_findById :: "int \<Rightarrow> int \<Rightarrow> db \<Rightarrow> error + task option" where
  "Task_findById taskId userId s =
     (if parameters_ok [taskId, userId]
      then Inr (find (\<lambda>t. id_col t = taskId \<and> user_id t = Some userId) (tasks s))
      else Inl (PgError NumericValueOutOfRange))"

subsection \<open>Task.update\<close>

text \<open>
  \<^verbatim>\<open>updateData\<close> is the JavaScript object the caller passes: its keys in order, each with
  its value or \<^verbatim>\<open>undefined\<close> (\<open>None\<close>). A value is \<^verbatim>\<open>null\<close>, an integer, or a text; the
  driver sends an integer as its decimal text, and every other JSON value reaches the
  server as a text too. An integer is a number that JavaScript holds as an integer and
  prints in decimal; a number it prints otherwise (\<^verbatim>\<open>1.5\<close>, \<^verbatim>\<open>1e+21\<close>) is the text it prints.
\<close>

datatype param = Null | Integer int | Text string

type_synonym updateData = "(string \<times> param option) list"

text \<open>\<^verbatim>\<open>String(n)\<close> for an integer.\<close>

definition digit :: "nat \<Rightarrow> char" where
  "digit d = ''0123456789'' ! d"

function decimal_nat :: "nat \<Rightarrow> string" where
  "decimal_nat n = (if n < 10 then [digit n] else decimal_nat (n div 10) @ [digit (n mod 10)])"
  by pat_completeness auto

termination decimal_nat
  by (relation "measure id") auto

declare decimal_nat.simps [simp del]

definition decimal :: "int \<Rightarrow> string" where
  "decimal i = (if i < 0 then CHR ''-'' # decimal_nat (nat (- i)) else decimal_nat (nat i))"

text \<open>
  \<^verbatim>\<open>Task.update\<close> splices every key whose value is defined into the statement as
  \<^verbatim>\<open>key = $n\<close> and adds \<^verbatim>\<open>updated_at = CURRENT_TIMESTAMP\<close>. PostgreSQL reads a key that is
  an identifier (a letter or underscore, then letters, digits, underscores and dollar
  signs) as the name of a column, folded to lower case. A key that is not an identifier
  is SQL text of its own, which the model does not parse: it takes the statement for
  refused.
\<close>

definition upper_case :: string where
  "upper_case = ''ABCDEFGHIJKLMNOPQRSTUVWXYZ''"

definition lower_case :: string where
  "lower_case = ''abcdefghijklmnopqrstuvwxyz''"

definition is_identifier :: "string \<Rightarrow> bool" where
  "is_identifier k =
     (case k of
        [] \<Rightarrow> False
      | c # cs \<Rightarrow> c \<in> set (upper_case @ lower_case @ ''_'')
                 \<and> list_all (\<lambda>c. c \<in> set (upper_case @ lower_case @ ''0123456789_$'')) cs)"

definition fold_char :: "char \<Rightarrow> char" where
  "fold_char c = (case map_of (zip upper_case lower_case) c of None \<Rightarrow> c | Some l \<Rightarrow> l)"

definition fold_case :: "string \<Rightarrow> string" where
  "fold_case k = map fold_char k"

text \<open>
  How the server reads the text of a parameter at a column's type. For a text column the
  text is the value, cut to the length of a \<^verbatim>\<open>VARCHAR\<close> or refused by it. For the other
  types PostgreSQL's input function reads it: \<open>reader\<close> stands for the three input
  functions (of \<^verbatim>\<open>integer\<close>, \<^verbatim>\<open>date\<close> and \<^verbatim>\<open>timestamp\<close>), with \<open>None\<close> for a text the
  function refuses. An integer is read as itself at an integer column. The statement fails
  on a parameter the server cannot read or fit, whatever rows it would update.
\<close>

type_synonym reader = "column_type \<Rightarrow> string \<Rightarrow> int option"

definition read_integer :: "int \<Rightarrow> pg_error + val" where
  "read_integer n =
     (if in_integer_range n then Inr (IntegerValue n) else Inl NumericValueOutOfRange)"

definition read_varchar :: "nat \<Rightarrow> string \<Rightarrow> pg_error + val" where
  "read_varchar n t = (case varchar n t of Inl e \<Rightarrow> Inl e | Inr t' \<Rightarrow> Inr (TextValue t'))"

definition read_param :: "reader \<Rightarrow> column_type \<Rightarrow> param \<Rightarrow> pg_error + val" where
  "read_param rd ty p =
     (case p of
        Null \<Rightarrow> Inr NullValue
      | Integer n \<Rightarrow>
          (case ty of
             IntegerColumn \<Rightarrow> read_integer n
           | VarcharColumn m \<Rightarrow> read_varchar m (decimal n)
           | TextColumn \<Rightarrow> Inr (TextValue (decimal n))
           | DateColumn \<Rightarrow>
               (case rd DateColumn (decimal n) of
                  None \<Rightarrow> Inl InvalidDatetimeFormat
                | Some d \<Rightarrow> Inr (DateValue d))
           | TimestampColumn \<Rightarrow>
               (case rd TimestampColumn (decimal n) of
                  None \<Rightarrow> Inl InvalidDatetimeFormat
                | Some d \<Rightarrow> Inr (TimestampValue d)))
      | Text t \<Rightarrow>
          (case ty of
             IntegerColumn \<Rightarrow>
               (case rd IntegerColumn t of
                  None \<Rightarrow> Inl InvalidTextRepresentation
                | Some n \<Rightarrow> read_integer n)
           | VarcharColumn m \<Rightarrow> read_varchar m t
           | TextColumn \<Rightarrow> Inr (TextValue t)
           | DateColumn \<Rightarrow>
               (case rd DateColumn t of
                  None \<Rightarrow> Inl InvalidDatetimeFormat
                | Some d \<Rightarrow> Inr (DateValue d))
           | TimestampColumn \<Rightarrow>
               (case rd TimestampColumn t of
                  None \<Rightarrow> Inl InvalidDatetimeFormat
                | Some d \<Rightarrow> Inr (TimestampValue d))))"

fun read_all :: "reader \<Rightarrow> (string \<times> param) list \<Rightarrow> pg_error + (string \<times> val) list" where
  "read_all rd [] = Inr []"
| "read_all rd (a # as) =
     (case tasks_column (fold_case (fst a)) of
        None \<Rightarrow> Inl NotAColumn
      | Some ty \<Rightarrow>
          (case read_param rd ty (snd a) of
             Inl e \<Rightarrow> Inl e
           | Inr v \<Rightarrow>
               (case read_all rd as of
                  Inl e \<Rightarrow> Inl e
                | Inr vs \<Rightarrow> Inr ((fold_case (fst a), v) # vs))))"

text \<open>
  The statement as the server accepts it: the columns assigned, each with the value read
  for it. The server refuses a statement that names a column the table does not have, and
  one that assigns a column twice, so a key \<^verbatim>\<open>updated_at\<close> is always refused.
\<close>

definition prepare :: "reader \<Rightarrow> (string \<times> param) list \<Rightarrow> pg_error + (string \<times> val) list" where
  "prepare rd assignments =
     (if list_all is_identifier (map fst assignments) then
        (if list_all (\<lambda>k. tasks_column (fold_case k) \<noteq> None) (map fst assignments) then
           (if distinct (map fold_case (map fst assignments) @ [''updated_at''])
            then read_all rd assignments
            else Inl MultipleAssignments)
         else Inl NotAColumn)
      else Inl NotAColumn)"

text \<open>
  One assignment on one row, with the column's own constraints: \<^verbatim>\<open>NOT NULL\<close> on the key
  and the title, and the two \<^verbatim>\<open>CHECK\<close>s (which \<^verbatim>\<open>NULL\<close> passes). The value is one read at
  the column's type, so the mismatch of the last alternatives does not arise.
\<close>

definition store_column :: "string \<Rightarrow> val \<Rightarrow> task \<Rightarrow> pg_error + task" where
  "store_column c v r =
     (if c = ''id'' then
        (case v of IntegerValue n \<Rightarrow> Inr (r\<lparr>id_col := n\<rparr>)
                 | NullValue \<Rightarrow> Inl NotNullViolation
                 | _ \<Rightarrow> Inl DatatypeMismatch)
      else if c = ''user_id'' then
        (case v of IntegerValue n \<Rightarrow> Inr (r\<lparr>user_id := Some n\<rparr>)
                 | NullValue \<Rightarrow> Inr (r\<lparr>user_id := None\<rparr>)
                 | _ \<Rightarrow> Inl DatatypeMismatch)
      else if c = ''title'' then
        (case v of TextValue t \<Rightarrow> Inr (r\<lparr>title := t\<rparr>)
                 | NullValue \<Rightarrow> Inl NotNullViolation
                 | _ \<Rightarrow> Inl DatatypeMismatch)
      else if c = ''description'' then
        (case v of TextValue t \<Rightarrow> Inr (r\<lparr>description := Some t\<rparr>)
                 | NullValue \<Rightarrow> Inr (r\<lparr>description := None\<rparr>)
                 | _ \<Rightarrow> Inl DatatypeMismatch)
      else if c = ''parent_task_id'' then
        (case v of IntegerValue n \<Rightarrow> Inr (r\<lparr>parent_task_id := Some n\<rparr>)
                 | NullValue \<Rightarrow> Inr (r\<lparr>parent_task_id := None\<rparr>)
                 | _ \<Rightarrow> Inl DatatypeMismatch)
      else if c = ''due_date'' then
        (case v of DateValue d \<Rightarrow> Inr (r\<lparr>due_date := Some d\<rparr>)
                 | NullValue \<Rightarrow> Inr (r\<lparr>due_date := None\<rparr>)
                 | _ \<Rightarrow> Inl DatatypeMismatch)
      else if c = ''priority'' then
        (case v of TextValue t \<Rightarrow> (case priority_of_text t of
                                     Some p \<Rightarrow> Inr (r\<lparr>priority := Some p\<rparr>)
                                   | None \<Rightarrow> Inl CheckViolation)
                 | NullValue \<Rightarrow> Inr (r\<lparr>priority := None\<rparr>)
                 | _ \<Rightarrow> Inl DatatypeMismatch)
      else if c = ''status'' then
        (case v of TextValue t \<Rightarrow> (case status_of_text t of
                                     Some st \<Rightarrow> Inr (r\<lparr>status := Some st\<rparr>)
                                   | None \<Rightarrow> Inl CheckViolation)
                 | NullValue \<Rightarrow> Inr (r\<lparr>status := None\<rparr>)
                 | _ \<Rightarrow> Inl DatatypeMismatch)
      else if c = ''created_at'' then
        (case v of TimestampValue n \<Rightarrow> Inr (r\<lparr>created_at := Some n\<rparr>)
                 | NullValue \<Rightarrow> Inr (r\<lparr>created_at := None\<rparr>)
                 | _ \<Rightarrow> Inl DatatypeMismatch)
      else if c = ''updated_at'' then
        (case v of TimestampValue n \<Rightarrow> Inr (r\<lparr>updated_at := Some n\<rparr>)
                 | NullValue \<Rightarrow> Inr (r\<lparr>updated_at := None\<rparr>)
                 | _ \<Rightarrow> Inl DatatypeMismatch)
      else Inl NotAColumn)"

fun store_all :: "(string \<times> val) list \<Rightarrow> task \<Rightarrow> pg_error + task" where
  "store_all [] r = Inr r"
| "store_all (a # as) r =
     (case store_column (fst a) (snd a) r of
        Inl e \<Rightarrow> Inl e
      | Inr r' \<Rightarrow> store_all as r')"

text \<open>
  The row as an \<^verbatim>\<open>UPDATE\<close> of \<^verbatim>\<open>tasks\<close> leaves it: the assignments of the statement, then
  \<^verbatim>\<open>updated_at = CURRENT_TIMESTAMP\<close>, which is both the last assignment of \<^verbatim>\<open>Task.update\<close>
  and what the trigger \<^verbatim>\<open>update_tasks_updated_at\<close> does before every update of a row.
\<close>

definition update_row :: "(string \<times> val) list \<Rightarrow> int \<Rightarrow> task \<Rightarrow> pg_error + task" where
  "update_row assignments now r =
     (case store_all assignments r of
        Inl e \<Rightarrow> Inl e
      | Inr r' \<Rightarrow> Inr (r'\<lparr>updated_at := Some now\<rparr>))"

fun update_where :: "('a \<Rightarrow> bool) \<Rightarrow> ('a \<Rightarrow> 'e + 'a) \<Rightarrow> 'a list \<Rightarrow> 'e + ('a list \<times> 'a list)" where
  "update_where matches f [] = Inr ([], [])"
| "update_where matches f (r # rs) =
     (if matches r then
        (case f r of
           Inl e \<Rightarrow> Inl e
         | Inr r' \<Rightarrow> (case update_where matches f rs of
                       Inl e \<Rightarrow> Inl e
                     | Inr (returning, rs') \<Rightarrow> Inr (r' # returning, r' # rs')))
      else
        (case update_where matches f rs of
           Inl e \<Rightarrow> Inl e
         | Inr (returning, rs') \<Rightarrow> Inr (returning, r # rs')))"

text \<open>
  \<^verbatim>\<open>UPDATE tasks SET ..., updated_at = CURRENT_TIMESTAMP WHERE id = $n+1 AND
  user_id = $n+2 RETURNING *\<close>: the rows it returns (the updated rows, as updated) and the
  new table.
\<close>

definition update_tasks ::
    "reader \<Rightarrow> (string \<times> param) list \<Rightarrow> int \<Rightarrow> int \<Rightarrow> db \<Rightarrow> pg_error + (task list \<times> db)" where
  "update_tasks rd assignments taskId userId s =
     (case prepare rd assignments of
        Inl e \<Rightarrow> Inl e
      | Inr columns \<Rightarrow>
          if parameters_ok [taskId, userId] then
            (case update_where (\<lambda>t. id_col t = taskId \<and> user_id t = Some userId)
                    (update_row columns (clock s)) (tasks s) of
               Inl e \<Rightarrow> Inl e
             | Inr (returning, rows) \<Rightarrow>
                 (case constraint_error (s\<lparr>tasks := rows\<rparr>) of
                    Some e \<Rightarrow> Inl e
                  | None \<Rightarrow> Inr (returning, s\<lparr>tasks := rows\<rparr>)))
          else Inl NumericValueOutOfRange)"

text \<open>The keys of \<^verbatim>\<open>updateData\<close> whose value is not \<^verbatim>\<open>undefined\<close>, with their values.\<close>

fun defined_fields :: "updateData \<Rightarrow> (string \<times> param) list" where
  "defined_fields [] = []"
| "defined_fields ((k, None) # m) = defined_fields m"
| "defined_fields ((k, Some v) # m) = (k, v) # defined_fields m"

definition first_row :: "'a list \<Rightarrow> 'a option" where
  "first_row rows = (case rows of [] \<Rightarrow> None | r # rs \<Rightarrow> Some r)"

definition Task_update ::
    "reader \<Rightarrow> int \<Rightarrow> int \<Rightarrow> updateData \<Rightarrow> db \<Rightarrow> (error + task option) \<times> db" where
  "Task_update rd taskId userId updateData s =
     (let fields = defined_fields updateData
      in if length fields = 0 then (Inl (Error ''No fields to update''), s)
         else (case update_tasks rd fields taskId userId s of
                 Inl e \<Rightarrow> (Inl (PgError e), s)
               | Inr (returning, s') \<Rightarrow> (Inr (first_row returning), s')))"

subsection \<open>Task.delete\<close>

text \<open>
  \<^verbatim>\<open>DELETE FROM tasks WHERE id = $1 AND user_id = $2 RETURNING *\<close>. Both foreign keys on
  \<^verbatim>\<open>tasks(id)\<close> are \<^verbatim>\<open>ON DELETE CASCADE\<close>: a deleted row takes with it every task whose
  \<^verbatim>\<open>parent_task_id\<close> names it (and so on from those), and every dependency row with a
  deleted task on either side. \<open>cascade\<close> collects the keys until no row refers to one.
\<close>

definition referencing_ids :: "task list \<Rightarrow> int list \<Rightarrow> int list" where
  "referencing_ids rows ids =
     map id_col (filter (\<lambda>r. (case parent_task_id r of None \<Rightarrow> False | Some p \<Rightarrow> p \<in> set ids)
                              \<and> id_col r \<notin> set ids) rows)"

function cascade :: "task list \<Rightarrow> int list \<Rightarrow> int list" where
  "cascade rows ids =
     (if referencing_ids rows ids = [] then ids
      else cascade rows (ids @ referencing_ids rows ids))"
  by pat_completeness auto

lemma referencing_ids_fresh:
  "set (referencing_ids rows ids) \<subseteq> set (map id_col rows) - set ids"
  by (auto simp: referencing_ids_def)

termination cascade
proof (relation "measure (\<lambda>(rows, ids). card (set (map id_col rows) - set ids))", goal_cases)
  case 1
  show ?case by simp
next
  case (2 rows ids)
  then obtain x where x: "x \<in> set (referencing_ids rows ids)"
    by (cases "referencing_ids rows ids") auto
  then have "x \<in> set (map id_col rows) - set ids"
    using referencing_ids_fresh by blast
  then have "set (map id_col rows) - set (ids @ referencing_ids rows ids)
               \<subset> set (map id_col rows) - set ids"
    using x by auto
  then have "card (set (map id_col rows) - set (ids @ referencing_ids rows ids))
               < card (set (map id_col rows) - set ids)"
    by (intro psubset_card_mono) auto
  then show ?case by simp
qed

declare cascade.simps [simp del]

definition delete_tasks :: "int list \<Rightarrow> db \<Rightarrow> db" where
  "delete_tasks ids s =
     (let deleted = cascade (tasks s) ids
      in s\<lparr>tasks := filter (\<lambda>t. id_col t \<notin> set deleted) (tasks s),
            task_dependencies :=
              filter (\<lambda>td. task_id td \<notin> set deleted \<and> depends_on_task_id td \<notin> set deleted)
                (task_dependencies s)\<rparr>)"

definition Task_delete :: "int \<Rightarrow> int \<Rightarrow> db \<Rightarrow> (error + task option) \<times> db" where
  "Task_delete taskId userId s =
     (if parameters_ok [taskId, userId] then
        (let returning = filter (\<lambda>t. id_col t = taskId \<and> user_id t = Some userId) (tasks s)
         in (Inr (first_row returning),
             if returning = [] then s else delete_tasks (map id_col returning) s))
      else (Inl (PgError NumericValueOutOfRange), s))"

subsection \<open>Task.getDependents\<close>

text \<open>
  \<^verbatim>\<open>SELECT t.* FROM task_dependencies td JOIN tasks t ON td.task_id = t.id
  WHERE td.depends_on_task_id = $1 AND t.user_id = $2 ORDER BY td.created_at ASC\<close>.
\<close>

definition Task_getDependents :: "int \<Rightarrow> int \<Rightarrow> db \<Rightarrow> error + task list" where
  "Task_getDependents taskId userId s =
     (if parameters_ok [taskId, userId] then
        Inr (concat (map (\<lambda>td. filter (\<lambda>t. id_col t = task_id td \<and> user_id t = Some userId)
                                  (tasks s))
                       (filter (\<lambda>td. depends_on_task_id td = taskId) (task_dependencies s))))
      else Inl (PgError NumericValueOutOfRange))"

subsection \<open>Task.checkCircularDependency\<close>

text \<open>
  The rows of \<^verbatim>\<open>SELECT depends_on_task_id FROM task_dependencies WHERE task_id = $1\<close>.
\<close>

definition dependency_rows :: "db \<Rightarrow> int \<Rightarrow> int list" where
  "dependency_rows s toTaskId =
     map depends_on_task_id (filter (\<lambda>td. task_id td = toTaskId) (task_dependencies s))"

text \<open>
  The depth-first search. \<^verbatim>\<open>visited\<close> and \<^verbatim>\<open>path\<close> are JavaScript \<^verbatim>\<open>Set\<close>s that all
  recursive calls share, so the function takes the pair and returns it as the call left
  it, next to the result. \<open>Task_checkCircularDependency_rows\<close> is the \<^verbatim>\<open>for\<close> loop over
  the rows, which returns \<^verbatim>\<open>true\<close> from the enclosing call at the first row whose
  recursive call does (without the \<^verbatim>\<open>path.delete\<close> that follows the loop).
\<close>

function Task_checkCircularDependency ::
    "db \<Rightarrow> int \<Rightarrow> int \<Rightarrow> int set \<times> int set \<Rightarrow> bool \<times> int set \<times> int set"
  and Task_checkCircularDependency_rows ::
    "db \<Rightarrow> int \<Rightarrow> int list \<Rightarrow> int set \<times> int set \<Rightarrow> bool \<times> int set \<times> int set"
where
  "Task_checkCircularDependency s fromTaskId toTaskId (visited, path) =
     (if toTaskId \<in> path then (True, visited, path)
      else if toTaskId \<in> visited then (False, visited, path)
      else (let (found, visited', path') =
                  Task_checkCircularDependency_rows s fromTaskId (dependency_rows s toTaskId)
                    (insert toTaskId visited, insert toTaskId path)
            in if found then (True, visited', path')
               else (False, visited', path' - {toTaskId})))"
| "Task_checkCircularDependency_rows s fromTaskId [] vp = (False, vp)"
| "Task_checkCircularDependency_rows s fromTaskId (dep # rows) vp =
     (let (found, vp') = Task_checkCircularDependency s fromTaskId dep vp
      in if found then (True, vp')
         else Task_checkCircularDependency_rows s fromTaskId rows vp')"
  by pat_completeness auto

text \<open>
  Termination: every call that goes on to read rows has just added a task to \<^verbatim>\<open>visited\<close>
  that was not in it, and \<^verbatim>\<open>visited\<close> never shrinks.
\<close>

lemma checkCircularDependency_visited_grows:
  "Task_checkCircularDependency_Task_checkCircularDependency_rows_dom (Inl (s, f, t, vp)) \<Longrightarrow>
     fst vp \<subseteq> fst (snd (Task_checkCircularDependency s f t vp))"
  "Task_checkCircularDependency_Task_checkCircularDependency_rows_dom (Inr (s, f, rows, vp)) \<Longrightarrow>
     fst vp \<subseteq> fst (snd (Task_checkCircularDependency_rows s f rows vp))"
proof (induction s f t vp and s f rows vp
    rule: Task_checkCircularDependency_Task_checkCircularDependency_rows.pinduct)
  case (1 s fromTaskId toTaskId visited path)
  then show ?case
    by (auto simp: Task_checkCircularDependency.psimps split: prod.splits)
next
  case (2 s fromTaskId vp)
  then show ?case by (simp add: Task_checkCircularDependency_rows.psimps)
next
  case (3 s fromTaskId dep rows vp)
  obtain found vp' where r: "Task_checkCircularDependency s fromTaskId dep vp = (found, vp')"
    by (cases "Task_checkCircularDependency s fromTaskId dep vp")
  have a: "fst vp \<subseteq> fst vp'"
    using 3(2) r by simp
  show ?case
  proof (cases found)
    case True
    then show ?thesis
      using a r 3(1) by (simp add: Task_checkCircularDependency_rows.psimps)
  next
    case False
    have "fst vp' \<subseteq> fst (snd (Task_checkCircularDependency_rows s fromTaskId rows vp'))"
      using 3(3)[OF r[symmetric] refl] False by simp
    then show ?thesis
      using a r 3(1) False by (auto simp: Task_checkCircularDependency_rows.psimps)
  qed
qed

definition dependency_targets :: "db \<Rightarrow> int set" where
  "dependency_targets s = set (map depends_on_task_id (task_dependencies s))"

lemma dependency_rows_targets: "set (dependency_rows s t) \<subseteq> dependency_targets s"
  by (auto simp: dependency_rows_def dependency_targets_def)

lemma finite_dependency_targets: "finite (dependency_targets s)"
  by (simp add: dependency_targets_def)

definition unvisited ::
    "(db \<times> int \<times> int \<times> int set \<times> int set) + (db \<times> int \<times> int list \<times> int set \<times> int set)
       \<Rightarrow> nat \<times> nat" where
  "unvisited call =
     (case call of
        Inl (s, f, t, visited, path) \<Rightarrow> (card ((dependency_targets s \<union> {t}) - visited), 0)
      | Inr (s, f, rows, visited, path) \<Rightarrow>
          (card ((dependency_targets s \<union> set rows) - visited), Suc (length rows)))"

termination Task_checkCircularDependency
proof (relation "inv_image (less_than <*lex*> less_than) unvisited", goal_cases)
  case 1
  show ?case by (intro wf_inv_image wf_lex_prod wf_less_than)
next
  case (2 s fromTaskId toTaskId visited path)
  have "dependency_targets s \<union> set (dependency_rows s toTaskId) = dependency_targets s"
    using dependency_rows_targets by blast
  moreover have "dependency_targets s - insert toTaskId visited
                   \<subset> (dependency_targets s \<union> {toTaskId}) - visited"
    using 2 by auto
  then have "card (dependency_targets s - insert toTaskId visited)
               < card ((dependency_targets s \<union> {toTaskId}) - visited)"
    by (intro psubset_card_mono) (auto simp: finite_dependency_targets)
  ultimately show ?case by (simp add: unvisited_def)
next
  case (3 s fromTaskId dep rows vp)
  obtain visited path where vp: "vp = (visited, path)" by (cases vp)
  have "card ((dependency_targets s \<union> {dep}) - visited)
          \<le> card ((dependency_targets s \<union> set (dep # rows)) - visited)"
    by (intro card_mono) (auto simp: finite_dependency_targets)
  then show ?case by (auto simp: unvisited_def vp)
next
  case (4 s fromTaskId dep rows vp x xa y)
  obtain visited path where vp: "vp = (visited, path)" by (cases vp)
  obtain visited' path' where y: "y = (visited', path')" by (cases y)
  have "fst vp \<subseteq> fst (snd (Task_checkCircularDependency s fromTaskId dep vp))"
    using 4 by (intro checkCircularDependency_visited_grows(1))
  moreover have "Task_checkCircularDependency s fromTaskId dep vp = (xa, y)"
    using 4 by simp
  ultimately have "visited \<subseteq> visited'"
    by (simp add: vp y)
  then have "card ((dependency_targets s \<union> set rows) - visited')
               \<le> card ((dependency_targets s \<union> set (dep # rows)) - visited)"
    by (intro card_mono) (auto simp: finite_dependency_targets)
  then show ?case by (auto simp: unvisited_def vp y)
qed

text \<open>
  A first call, with the default arguments \<^verbatim>\<open>visited = new Set(), path = new Set()\<close>. Its
  first query has \<^verbatim>\<open>toTaskId\<close> as parameter and fails when that is out of range; the
  queries of the recursive calls have ids read from the rows, which are \<^verbatim>\<open>INTEGER\<close>
  values. \<^verbatim>\<open>Task.validateDependencies\<close> is that first call.
\<close>

definition checkCircularDependency :: "int \<Rightarrow> int \<Rightarrow> db \<Rightarrow> error + bool" where
  "checkCircularDependency fromTaskId toTaskId s =
     (if parameters_ok [toTaskId]
      then Inr (fst (Task_checkCircularDependency s fromTaskId toTaskId ({}, {})))
      else Inl (PgError NumericValueOutOfRange))"

definition Task_validateDependencies :: "int \<Rightarrow> int \<Rightarrow> db \<Rightarrow> error + bool" where
  "Task_validateDependencies taskId dependsOnTaskId s =
     checkCircularDependency taskId dependsOnTaskId s"

subsection \<open>Task.updateTaskStatusBasedOnDependencies\<close>

text \<open>
  The rows the first query counts: a dependency row of the task joined with its target
  when \<^verbatim>\<open>t.status != 'Completed'\<close> is true of the target.
\<close>

definition incomplete_dependencies :: "int \<Rightarrow> db \<Rightarrow> task list" where
  "incomplete_dependencies taskId s =
     concat (map (\<lambda>td. filter (\<lambda>t. id_col t = depends_on_task_id td
                                     \<and> status_ne_Completed (status t))
                         (tasks s))
               (filter (\<lambda>td. task_id td = taskId) (task_dependencies s)))"

text \<open>
  \<^verbatim>\<open>UPDATE tasks SET status = ... WHERE id = $1\<close>, with the trigger's
  \<^verbatim>\<open>updated_at = CURRENT_TIMESTAMP\<close> on the rows it updates.
\<close>

definition set_status :: "int \<Rightarrow> task_status \<Rightarrow> db \<Rightarrow> db" where
  "set_status taskId st s =
     s\<lparr>tasks := map (\<lambda>t. if id_col t = taskId
                           then t\<lparr>status := Some st, updated_at := Some (clock s)\<rparr>
                           else t) (tasks s)\<rparr>"

text \<open>
  \<^verbatim>\<open>currentStatus\<close> is the status of the first row, which is \<^verbatim>\<open>null\<close> for a \<^verbatim>\<open>NULL\<close>
  status: neither \<^verbatim>\<open>'Blocked'\<close> nor \<^verbatim>\<open>'Completed'\<close>. Every caller passes a \<^verbatim>\<open>taskId\<close> that
  an earlier statement of the same call has accepted or that was read from a row, so the
  statements here are not refused.
\<close>

definition updateTaskStatusBasedOnDependencies :: "int \<Rightarrow> db \<Rightarrow> db" where
  "updateTaskStatusBasedOnDependencies taskId s =
     (let hasIncompleteDeps = (0 < length (incomplete_dependencies taskId s));
          currentTask = filter (\<lambda>t. id_col t = taskId) (tasks s)
      in case currentTask of
           [] \<Rightarrow> s
         | row # rest \<Rightarrow>
             (let currentStatus = status row
              in if hasIncompleteDeps \<and> currentStatus \<noteq> Some Blocked
                      \<and> currentStatus \<noteq> Some Completed
                 then set_status taskId Blocked s
                 else if \<not> hasIncompleteDeps \<and> currentStatus = Some Blocked
                 then set_status taskId ToDo s
                 else s))"

subsection \<open>Task.addDependency and Task.removeDependency\<close>

text \<open>
  \<^verbatim>\<open>INSERT INTO task_dependencies (task_id, depends_on_task_id) VALUES ($1, $2)
  RETURNING *\<close>.
\<close>

definition insert_task_dependency ::
    "int \<Rightarrow> int \<Rightarrow> db \<Rightarrow> pg_error + (task_dependency \<times> db)" where
  "insert_task_dependency taskId dependsOnTaskId s =
     (let row = \<lparr>task_id = taskId, depends_on_task_id = dependsOnTaskId\<rparr>;
          s' = s\<lparr>task_dependencies := task_dependencies s @ [row]\<rparr>
      in if parameters_ok [taskId, dependsOnTaskId] then
           (case constraint_error s' of
              Some e \<Rightarrow> Inl e
            | None \<Rightarrow> Inr (row, s'))
         else Inl NumericValueOutOfRange)"

text \<open>
  The ownership query is \<^verbatim>\<open>SELECT id FROM tasks WHERE id IN ($1, $2) AND user_id = $3\<close>.
\<close>

definition Task_addDependency ::
    "int \<Rightarrow> int \<Rightarrow> int \<Rightarrow> db \<Rightarrow> (error + task_dependency) \<times> db" where
  "Task_addDependency taskId dependsOnTaskId userId s =
     (if parameters_ok [taskId, dependsOnTaskId, userId] then
        (let taskCheck = filter (\<lambda>t. (id_col t = taskId \<or> id_col t = dependsOnTaskId)
                                      \<and> user_id t = Some userId) (tasks s)
         in if length taskCheck \<noteq> 2
            then (Inl (Error ''One or both tasks not found or not owned by user''), s)
            else (case checkCircularDependency taskId dependsOnTaskId s of
                    Inl e \<Rightarrow> (Inl e, s)
                  | Inr hasCircular \<Rightarrow>
                      if hasCircular
                      then (Inl (Error ''Adding this dependency would create a circular dependency''), s)
                      else (case insert_task_dependency taskId dependsOnTaskId s of
                              Inl e \<Rightarrow> (if e = UniqueViolation
                                        then (Inl (Error ''Dependency already exists''), s)
                                        else (Inl (PgError e), s))
                            | Inr (row, s') \<Rightarrow>
                                (Inr row, updateTaskStatusBasedOnDependencies taskId s'))))
      else (Inl (PgError NumericValueOutOfRange), s))"

text \<open>
  \<^verbatim>\<open>SELECT id FROM tasks WHERE id = $1 AND user_id = $2\<close>, then \<^verbatim>\<open>DELETE FROM
  task_dependencies WHERE task_id = $1 AND depends_on_task_id = $2 RETURNING *\<close>, of which
  the caller returns \<^verbatim>\<open>rows[0]\<close> after the status update.
\<close>

definition Task_removeDependency ::
    "int \<Rightarrow> int \<Rightarrow> int \<Rightarrow> db \<Rightarrow> (error + task_dependency option) \<times> db" where
  "Task_removeDependency taskId dependsOnTaskId userId s =
     (if parameters_ok [taskId, userId] then
        (let taskCheck = filter (\<lambda>t. id_col t = taskId \<and> user_id t = Some userId) (tasks s)
         in if length taskCheck = 0
            then (Inl (Error ''Task not found or not owned by user''), s)
            else if parameters_ok [taskId, dependsOnTaskId] then
              (let returning = filter (\<lambda>td. task_id td = taskId
                                             \<and> depends_on_task_id td = dependsOnTaskId)
                                 (task_dependencies s);
                   s' = s\<lparr>task_dependencies :=
                            filter (\<lambda>td. \<not> (task_id td = taskId
                                               \<and> depends_on_task_id td = dependsOnTaskId))
                              (task_dependencies s)\<rparr>
               in (Inr (first_row returning), updateTaskStatusBasedOnDependencies taskId s'))
            else (Inl (PgError NumericValueOutOfRange), s))
      else (Inl (PgError NumericValueOutOfRange), s))"

subsection \<open>Task.canCompleteTask and Task.markAsCompleted\<close>

text \<open>
  \<^verbatim>\<open>SELECT COUNT(*) FROM tasks WHERE parent_task_id = $1 AND status != 'Completed'\<close>: a
  subtask whose status is \<^verbatim>\<open>NULL\<close> is not counted.
\<close>

definition Task_canCompleteTask :: "int \<Rightarrow> db \<Rightarrow> error + bool" where
  "Task_canCompleteTask taskId s =
     (if parameters_ok [taskId]
      then Inr (length (filter (\<lambda>t. parent_task_id t = Some taskId
                                     \<and> status_ne_Completed (status t)) (tasks s)) = 0)
      else Inl (PgError NumericValueOutOfRange))"

text \<open>
  The dependents are the rows of \<^verbatim>\<open>SELECT task_id FROM task_dependencies WHERE
  depends_on_task_id = $1\<close>; the \<^verbatim>\<open>for\<close> loop updates each in turn.
\<close>

definition dependent_rows :: "int \<Rightarrow> db \<Rightarrow> int list" where
  "dependent_rows taskId s =
     map task_id (filter (\<lambda>td. depends_on_task_id td = taskId) (task_dependencies s))"

definition Task_markAsCompleted ::
    "reader \<Rightarrow> int \<Rightarrow> int \<Rightarrow> db \<Rightarrow> (error + task option) \<times> db" where
  "Task_markAsCompleted rd taskId userId s =
     (case Task_canCompleteTask taskId s of
        Inl e \<Rightarrow> (Inl e, s)
      | Inr canComplete \<Rightarrow>
          if \<not> canComplete
          then (Inl (Error ''Cannot complete task: subtasks are not completed''), s)
          else (case Task_update rd taskId userId [(''status'', Some (Text ''Completed''))] s of
                  (Inl e, s1) \<Rightarrow> (Inl e, s1)
                | (Inr result, s1) \<Rightarrow>
                    (Inr result,
                     fold updateTaskStatusBasedOnDependencies (dependent_rows taskId s1) s1)))"

section \<open>The controllers (controllers/taskController.js)\<close>

text \<open>
  A controller answers with a status code and a JSON body; the model keeps the code and the
  body's \<^verbatim>\<open>error\<close> text (for a 2xx answer, its \<^verbatim>\<open>message\<close>). Every controller catches
  what its body throws and answers 500, but for the messages it looks for.
\<close>

datatype response = Json nat string

text \<open>
  \<^verbatim>\<open>if (parentTaskId)\<close> and \<^verbatim>\<open>if (parentTask.parent_task_id)\<close>: \<^verbatim>\<open>undefined\<close>,
  \<^verbatim>\<open>null\<close> and \<^verbatim>\<open>0\<close> are falsy.
\<close>

definition truthy :: "int option \<Rightarrow> bool" where
  "truthy v = (case v of None \<Rightarrow> False | Some n \<Rightarrow> n \<noteq> 0)"

definition TaskController_createTask ::
    "int \<Rightarrow> string \<Rightarrow> string option \<Rightarrow> int option \<Rightarrow> int option \<Rightarrow>
     task_priority option \<Rightarrow> task_status option \<Rightarrow> db \<Rightarrow> response \<times> db" where
  "TaskController_createTask userId title' description' parentTaskId dueDate priority' status' s =
     (let create = (case Task_create userId title' description' parentTaskId dueDate priority' status' s of
                      (Inl e, s') \<Rightarrow> (Json 500 ''Failed to create task'', s')
                    | (Inr row, s') \<Rightarrow> (Json 201 ''Task created successfully'', s'))
      in case parentTaskId of
           None \<Rightarrow> create
         | Some p \<Rightarrow>
             if truthy (Some p) then
               (case Task_findById p userId s of
                  Inl e \<Rightarrow> (Json 500 ''Failed to create task'', s)
                | Inr None \<Rightarrow> (Json 404 ''Parent task not found'', s)
                | Inr (Some parentTask) \<Rightarrow>
                    if truthy (parent_task_id parentTask)
                    then (Json 400 ''Invalid parent task'', s)
                    else create)
             else create)"

definition TaskController_createSubtask ::
    "int \<Rightarrow> int \<Rightarrow> string \<Rightarrow> string option \<Rightarrow> int option \<Rightarrow> task_priority option \<Rightarrow>
     db \<Rightarrow> response \<times> db" where
  "TaskController_createSubtask parentTaskId userId title' description' dueDate priority' s =
     (case Task_findById parentTaskId userId s of
        Inl e \<Rightarrow> (Json 500 ''Failed to create subtask'', s)
      | Inr None \<Rightarrow> (Json 404 ''Parent task not found'', s)
      | Inr (Some parentTask) \<Rightarrow>
          if truthy (parent_task_id parentTask)
          then (Json 400 ''Invalid parent task'', s)
          else (case Task_create userId title' description' (Some parentTaskId) dueDate priority'
                       (Some ToDo) s of
                  (Inl e, s') \<Rightarrow> (Json 500 ''Failed to create subtask'', s')
                | (Inr row, s') \<Rightarrow> (Json 201 ''Subtask created successfully'', s')))"

text \<open>
  \<^verbatim>\<open>updateData.status === 'Completed'\<close>: the value of the key \<^verbatim>\<open>status\<close> itself, in lower
  case.
\<close>

definition status_is_Completed :: "updateData \<Rightarrow> bool" where
  "status_is_Completed updateData = (map_of updateData ''status'' = Some (Some (Text ''Completed'')))"

definition TaskController_updateTask ::
    "reader \<Rightarrow> int \<Rightarrow> int \<Rightarrow> updateData \<Rightarrow> db \<Rightarrow> response \<times> db" where
  "TaskController_updateTask rd taskId userId updateData s =
     (let update =
            (case Task_update rd taskId userId updateData s of
               (Inl e, s1) \<Rightarrow> (Json 500 ''Failed to update task'', s1)
             | (Inr None, s1) \<Rightarrow> (Json 404 ''Task not found'', s1)
             | (Inr (Some updatedTask), s1) \<Rightarrow>
                 if status_is_Completed updateData then
                   (case Task_getDependents taskId userId s1 of
                      Inl e \<Rightarrow> (Json 500 ''Failed to update task'', s1)
                    | Inr dependents \<Rightarrow>
                        (Json 200 ''Task updated successfully'',
                         fold updateTaskStatusBasedOnDependencies (map id_col dependents) s1))
                 else (Json 200 ''Task updated successfully'', s1))
      in case Task_findById taskId userId s of
           Inl e \<Rightarrow> (Json 500 ''Failed to update task'', s)
         | Inr None \<Rightarrow> (Json 404 ''Task not found'', s)
         | Inr (Some existingTask) \<Rightarrow>
             if status_is_Completed updateData then
               (case Task_canCompleteTask taskId s of
                  Inl e \<Rightarrow> (Json 500 ''Failed to update task'', s)
                | Inr canComplete \<Rightarrow>
                    if \<not> canComplete then (Json 400 ''Cannot complete task'', s) else update)
             else update)"

definition TaskController_deleteTask :: "int \<Rightarrow> int \<Rightarrow> db \<Rightarrow> response \<times> db" where
  "TaskController_deleteTask taskId userId s =
     (case Task_delete taskId userId s of
        (Inl e, s') \<Rightarrow> (Json 500 ''Failed to delete task'', s')
      | (Inr None, s') \<Rightarrow> (Json 404 ''Task not found'', s')
      | (Inr (Some deletedTask), s') \<Rightarrow> (Json 200 ''Task deleted successfully'', s'))"

text \<open>The \<^verbatim>\<open>catch\<close> of \<^verbatim>\<open>addDependency\<close>, which chooses the answer by the error's message.\<close>

definition addDependency_error :: "error \<Rightarrow> response" where
  "addDependency_error e =
     (if message_includes e ''circular dependency''
      then Json 400 ''Circular dependency detected''
      else if message_includes e ''not found''
      then Json 404 ''Task not found''
      else if message_includes e ''already exists''
      then Json 409 ''Dependency already exists''
      else Json 500 ''Failed to add dependency'')"

definition TaskController_addDependency :: "int \<Rightarrow> int \<Rightarrow> int \<Rightarrow> db \<Rightarrow> response \<times> db" where
  "TaskController_addDependency taskId dependsOnTaskId userId s =
     (case Task_findById taskId userId s of
        Inl e \<Rightarrow> (addDependency_error e, s)
      | Inr None \<Rightarrow> (Json 404 ''Task not found'', s)
      | Inr (Some t) \<Rightarrow>
          (case Task_addDependency taskId dependsOnTaskId userId s of
             (Inr dependency, s') \<Rightarrow> (Json 201 ''Dependency added successfully'', s')
           | (Inl e, s') \<Rightarrow> (addDependency_error e, s')))"

definition TaskController_removeDependency :: "int \<Rightarrow> int \<Rightarrow> int \<Rightarrow> db \<Rightarrow> response \<times> db" where
  "TaskController_removeDependency taskId dependsOnTaskId userId s =
     (case Task_removeDependency taskId dependsOnTaskId userId s of
        (Inl e, s') \<Rightarrow> (Json 500 ''Failed to remove dependency'', s')
      | (Inr None, s') \<Rightarrow> (Json 404 ''Dependency not found'', s')
      | (Inr (Some removedDependency), s') \<Rightarrow> (Json 200 ''Dependency removed successfully'', s'))"

text \<open>
  The answer of \<^verbatim>\<open>validateDependencies\<close> is \<^verbatim>\<open>{ hasCircularDependency, canAddDependency }\<close>,
  or 500 when the check throws.
\<close>

definition TaskController_validateDependencies ::
    "int \<Rightarrow> int \<Rightarrow> db \<Rightarrow> response + (bool \<times> bool)" where
  "TaskController_validateDependencies taskId dependsOnTaskId s =
     (case Task_validateDependencies taskId dependsOnTaskId s of
        Inl e \<Rightarrow> Inl (Json 500 ''Failed to validate dependencies'')
      | Inr hasCircular \<Rightarrow> Inr (hasCircular, \<not> hasCircular))"

definition TaskController_markAsCompleted :: "reader \<Rightarrow> int \<Rightarrow> int \<Rightarrow> db \<Rightarrow> response \<times> db" where
  "TaskController_markAsCompleted rd taskId userId s =
     (case Task_markAsCompleted rd taskId userId s of
        (Inl e, s') \<Rightarrow>
          (if message_includes e ''subtasks are not completed''
           then Json 400 ''Cannot complete task''
           else Json 500 ''Failed to mark task as completed'', s')
      | (Inr None, s') \<Rightarrow> (Json 404 ''Task not found'', s')
      | (Inr (Some t), s') \<Rightarrow> (Json 200 ''Task marked as completed successfully'', s'))"

section \<open>Notions used by the properties\<close>

subsection \<open>Status updates as rewrites of the rows\<close>

text \<open>
  The decision table of \<^verbatim>\<open>updateTaskStatusBasedOnDependencies\<close> on one row, and the row
  rewrites that such an update, and a completion, amount to.
\<close>

definition has_incomplete_dependency :: "int \<Rightarrow> db \<Rightarrow> bool" where
  "has_incomplete_dependency taskId s = (0 < length (incomplete_dependencies taskId s))"

definition next_status :: "bool \<Rightarrow> task_status option \<Rightarrow> task_status option" where
  "next_status hasIncompleteDeps currentStatus =
     (if hasIncompleteDeps \<and> currentStatus \<noteq> Some Blocked \<and> currentStatus \<noteq> Some Completed
      then Some Blocked
      else if \<not> hasIncompleteDeps \<and> currentStatus = Some Blocked then Some ToDo
      else currentStatus)"

definition recompute_row :: "int set \<Rightarrow> db \<Rightarrow> task \<Rightarrow> task" where
  "recompute_row ids s t =
     (if id_col t \<in> ids
         \<and> next_status (has_incomplete_dependency (id_col t) s) (status t) \<noteq> status t
      then t\<lparr>status := next_status (has_incomplete_dependency (id_col t) s) (status t),
             updated_at := Some (clock s)\<rparr>
      else t)"

text \<open>
  The row rewrite of a completion at the time \<open>now\<close>: \<^verbatim>\<open>status = 'Completed'\<close> on the
  caller's task.
\<close>

definition complete_row :: "int \<Rightarrow> int \<Rightarrow> int \<Rightarrow> task \<Rightarrow> task" where
  "complete_row taskId userId now t =
     (if id_col t = taskId \<and> user_id t = Some userId
      then t\<lparr>status := Some Completed, updated_at := Some now\<rparr>
      else t)"

text \<open>A rewrite of the rows that keeps the key columns.\<close>

definition keeps_keys :: "(task \<Rightarrow> task) \<Rightarrow> bool" where
  "keeps_keys g = (\<forall>t. id_col (g t) = id_col t \<and> user_id (g t) = user_id t
      \<and> parent_task_id (g t) = parent_task_id t)"

text \<open>Every dependency of the task has a target whose rows are all Completed.\<close>

definition dependencies_completed :: "int \<Rightarrow> db \<Rightarrow> bool" where
  "dependencies_completed taskId s =
     list_all (\<lambda>td. list_all (\<lambda>t. status t = Some Completed)
                       (filter (\<lambda>t. id_col t = depends_on_task_id td) (tasks s)))
       (filter (\<lambda>td. task_id td = taskId) (task_dependencies s))"

subsection \<open>Properties of a store\<close>

text \<open>The dependency relation as a directed graph over task ids.\<close>

definition dependency_graph :: "db \<Rightarrow> (int \<times> int) set" where
  "dependency_graph s = set (map dependency_key (task_dependencies s))"

text \<open>
  The property of a store: every task with at least one dependency row is Blocked if and
  only if one of its dependencies has a target whose status is not Completed (a \<^verbatim>\<open>NULL\<close>
  status is not Completed) and the task itself is not Completed.
\<close>

definition has_dependency :: "int \<Rightarrow> db \<Rightarrow> bool" where
  "has_dependency taskId s = (dependency_rows s taskId \<noteq> [])"

definition has_target_not_Completed :: "int \<Rightarrow> db \<Rightarrow> bool" where
  "has_target_not_Completed taskId s =
     list_ex (\<lambda>td. list_ex (\<lambda>t. id_col t = depends_on_task_id td \<and> status t \<noteq> Some Completed)
                     (tasks s))
       (filter (\<lambda>td. task_id td = taskId) (task_dependencies s))"

definition row_consistent :: "db \<Rightarrow> task \<Rightarrow> bool" where
  "row_consistent s t =
     (has_dependency (id_col t) s \<longrightarrow>
        (status t = Some Blocked)
          = (has_target_not_Completed (id_col t) s \<and> status t \<noteq> Some Completed))"

definition blocked_consistent :: "db \<Rightarrow> bool" where
  "blocked_consistent s = list_all (row_consistent s) (tasks s)"

text \<open>No task has a \<^verbatim>\<open>NULL\<close> status.\<close>

definition statuses_set :: "db \<Rightarrow> bool" where
  "statuses_set s = list_all (\<lambda>t. status t \<noteq> None) (tasks s)"

text \<open>
  The same property with the dependencies that the status update counts, those whose
  target has a status that SQL finds different from \<^verbatim>\<open>'Completed'\<close>. In a store without
  \<^verbatim>\<open>NULL\<close> statuses the two agree.
\<close>

definition row_settled :: "db \<Rightarrow> task \<Rightarrow> bool" where
  "row_settled s t =
     (has_dependency (id_col t) s \<longrightarrow>
        (status t = Some Blocked)
          = (has_incomplete_dependency (id_col t) s \<and> status t \<noteq> Some Completed))"

definition settled :: "db \<Rightarrow> bool" where
  "settled s = list_all (row_settled s) (tasks s)"

text \<open>Every task with a parent has a parent without one.\<close>

definition nesting_depth_ok :: "db \<Rightarrow> bool" where
  "nesting_depth_ok s =
     list_all (\<lambda>t. case parent_task_id t of
                      None \<Rightarrow> True
                    | Some p \<Rightarrow> list_all (\<lambda>q. parent_task_id q = None)
                                (filter (\<lambda>q. id_col q = p) (tasks s)))
       (tasks s)"

subsection \<open>Example stores\<close>

text \<open>
  Users 1 and 2. The rows of the examples were written at time 0 and the clock reads 9, so
  a row that a statement of an example updates is the row with \<^verbatim>\<open>updated_at\<close> 9
  (\<open>rewritten\<close>).
\<close>

definition example_task :: "int \<Rightarrow> int option \<Rightarrow> task_status \<Rightarrow> task" where
  "example_task i parent st =
     \<lparr>id_col = i, user_id = Some 1, title = ''task'', description = None,
      parent_task_id = parent, due_date = None, priority = Some Medium, status = Some st,
      created_at = Some 0, updated_at = Some 0\<rparr>"

definition rewritten :: "task \<Rightarrow> task" where
  "rewritten t = t\<lparr>updated_at := Some 9\<rparr>"

definition dependency :: "int \<Rightarrow> int \<Rightarrow> task_dependency" where
  "dependency t d = \<lparr>task_id = t, depends_on_task_id = d\<rparr>"

definition store :: "task list \<Rightarrow> task_dependency list \<Rightarrow> db" where
  "store rows deps =
     \<lparr>users = [1, 2], tasks = rows, task_dependencies = deps, tasks_id_seq = 4, clock = 9\<rparr>"

text \<open>Tasks 1, 2 and 3 of user 1, none a subtask, with the given statuses and dependencies.\<close>

definition three_tasks ::
    "task_status \<Rightarrow> task_status \<Rightarrow> task_status \<Rightarrow> task_dependency list \<Rightarrow> db" where
  "three_tasks st1 st2 st3 deps =
     store [example_task 1 None st1, example_task 2 None st2, example_task 3 None st3] deps"

text \<open>Task 1 of user 1 with its subtask 2, and a third task.\<close>

definition two_level_store :: "task \<Rightarrow> db" where
  "two_level_store third =
     store [example_task 1 None ToDo, example_task 2 (Some 1) ToDo, third] []"

text \<open>A reader that refuses every text: the examples assign integers, texts and \<^verbatim>\<open>null\<close>.\<close>

definition no_reader :: reader where
  "no_reader ty t = None"

section \<open>Status updates, completion and the constraints\<close>

lemma next_status_Completed [simp]:
  "(next_status h st = Some Completed) = (st = Some Completed)"
  by (auto simp: next_status_def)

lemma next_status_idem [simp]: "next_status h (next_status h st) = next_status h st"
  by (auto simp: next_status_def)

lemma next_status_set: "st \<noteq> None \<Longrightarrow> next_status h st \<noteq> None"
  by (auto simp: next_status_def)

lemma next_status_ne_Completed:
  "st \<noteq> None \<Longrightarrow> status_ne_Completed (next_status h st) = status_ne_Completed st"
  by (auto simp: next_status_def status_ne_Completed_def)

lemma has_incomplete_dependency_iff:
  "has_incomplete_dependency x s \<longleftrightarrow>
     (\<exists>td \<in> set (task_dependencies s). task_id td = x \<and>
        (\<exists>t \<in> set (tasks s). id_col t = depends_on_task_id td \<and> status_ne_Completed (status t)))"
  by (auto simp: has_incomplete_dependency_def incomplete_dependencies_def filter_empty_conv)

lemma primary_key_unique:
  "primary_key_ok s \<Longrightarrow> r \<in> set (tasks s) \<Longrightarrow> r' \<in> set (tasks s) \<Longrightarrow> id_col r = id_col r' \<Longrightarrow> r = r'"
  by (auto simp: primary_key_ok_def task_ids_def distinct_map inj_on_def)

lemma filter_id_first:
  "primary_key_ok s \<Longrightarrow> filter (\<lambda>t. id_col t = x) (tasks s) = row # rest \<Longrightarrow>
     r \<in> set (tasks s) \<Longrightarrow> id_col r = x \<Longrightarrow> r = row"
proof -
  assume pk: "primary_key_ok s" and f: "filter (\<lambda>t. id_col t = x) (tasks s) = row # rest"
    and r: "r \<in> set (tasks s)" "id_col r = x"
  have "row \<in> set (filter (\<lambda>t. id_col t = x) (tasks s))" using f by simp
  then have "row \<in> set (tasks s)" "id_col row = x" by auto
  then show "r = row" using primary_key_unique[OF pk r(1)] r(2) by auto
qed

text \<open>
  What a status update does to the tables: nothing, or the new status and the time of the
  update on the rows of the task.
\<close>

lemma updateTaskStatus_cases:
  "updateTaskStatusBasedOnDependencies x s = s
   \<or> (\<exists>st. updateTaskStatusBasedOnDependencies x s
             = s\<lparr>tasks := map (\<lambda>r. if id_col r = x
                                     then r\<lparr>status := Some st, updated_at := Some (clock s)\<rparr>
                                     else r) (tasks s)\<rparr>)"
  by (auto simp: updateTaskStatusBasedOnDependencies_def set_status_def Let_def split: list.splits)

lemma updateTaskStatus_frame [simp]:
  "task_dependencies (updateTaskStatusBasedOnDependencies x s) = task_dependencies s"
  "users (updateTaskStatusBasedOnDependencies x s) = users s"
  "tasks_id_seq (updateTaskStatusBasedOnDependencies x s) = tasks_id_seq s"
  "clock (updateTaskStatusBasedOnDependencies x s) = clock s"
  by (simp_all add: updateTaskStatusBasedOnDependencies_def set_status_def Let_def split: list.splits)

lemma fold_updateTaskStatus_frame [simp]:
  "task_dependencies (fold updateTaskStatusBasedOnDependencies xs s) = task_dependencies s"
  "users (fold updateTaskStatusBasedOnDependencies xs s) = users s"
  "tasks_id_seq (fold updateTaskStatusBasedOnDependencies xs s) = tasks_id_seq s"
  "clock (fold updateTaskStatusBasedOnDependencies xs s) = clock s"
  by (induction xs arbitrary: s) simp_all

lemma updateTaskStatus_rows:
  assumes pk: "primary_key_ok s"
  shows "updateTaskStatusBasedOnDependencies x s = s\<lparr>tasks := map (recompute_row {x} s) (tasks s)\<rparr>"
proof (cases "filter (\<lambda>t. id_col t = x) (tasks s)")
  case Nil
  then have "\<forall>t \<in> set (tasks s). id_col t \<noteq> x"
    by (auto simp: filter_empty_conv)
  then have "map (recompute_row {x} s) (tasks s) = tasks s"
    by (intro map_idI) (auto simp: recompute_row_def)
  then show ?thesis
    using Nil by (simp add: updateTaskStatusBasedOnDependencies_def)
next
  case (Cons row rest)
  have same: "\<And>r. r \<in> set (tasks s) \<Longrightarrow> id_col r = x \<Longrightarrow> status r = status row"
    using filter_id_first[OF pk Cons] by blast
  let ?h = "has_incomplete_dependency x s"
  let ?st = "status row"
  consider (a) "?h \<and> ?st \<noteq> Some Blocked \<and> ?st \<noteq> Some Completed"
    | (b) "\<not> ?h \<and> ?st = Some Blocked"
    | (c) "\<not> (?h \<and> ?st \<noteq> Some Blocked \<and> ?st \<noteq> Some Completed)" "\<not> (\<not> ?h \<and> ?st = Some Blocked)"
    by blast
  then show ?thesis
  proof cases
    case a
    then have n: "next_status ?h ?st = Some Blocked" "next_status ?h ?st \<noteq> ?st"
      by (auto simp: next_status_def)
    have "map (\<lambda>t. if id_col t = x then t\<lparr>status := Some Blocked, updated_at := Some (clock s)\<rparr> else t)
            (tasks s) = map (recompute_row {x} s) (tasks s)"
      using n by (intro map_cong refl) (auto simp: recompute_row_def same)
    then show ?thesis
      using a Cons
      by (simp add: updateTaskStatusBasedOnDependencies_def set_status_def
          has_incomplete_dependency_def)
  next
    case b
    then have n: "next_status ?h ?st = Some ToDo" "next_status ?h ?st \<noteq> ?st"
      by (auto simp: next_status_def)
    have "map (\<lambda>t. if id_col t = x then t\<lparr>status := Some ToDo, updated_at := Some (clock s)\<rparr> else t)
            (tasks s) = map (recompute_row {x} s) (tasks s)"
      using n by (intro map_cong refl) (auto simp: recompute_row_def same)
    then show ?thesis
      using b Cons
      by (simp add: updateTaskStatusBasedOnDependencies_def set_status_def
          has_incomplete_dependency_def)
  next
    case c
    then have "next_status ?h ?st = ?st"
      by (auto simp: next_status_def)
    then have "map (recompute_row {x} s) (tasks s) = tasks s"
      by (intro map_idI) (auto simp: recompute_row_def same)
    moreover have "updateTaskStatusBasedOnDependencies x s = s"
      using c Cons
      by (auto simp: updateTaskStatusBasedOnDependencies_def has_incomplete_dependency_def)
    ultimately show ?thesis
      by simp
  qed
qed

lemma keeps_keys_integrity:
  assumes "keeps_keys g"
  shows "primary_key_ok (s\<lparr>tasks := map g (tasks s)\<rparr>) = primary_key_ok s"
    and "foreign_keys_ok (s\<lparr>tasks := map g (tasks s)\<rparr>) = foreign_keys_ok s"
    and "unique_dependencies_ok (s\<lparr>tasks := map g (tasks s)\<rparr>) = unique_dependencies_ok s"
    and "integrity (s\<lparr>tasks := map g (tasks s)\<rparr>) = integrity s"
proof -
  have ids: "map id_col (map g (tasks s)) = map id_col (tasks s)"
    using assms by (simp add: keeps_keys_def)
  show pk: "primary_key_ok (s\<lparr>tasks := map g (tasks s)\<rparr>) = primary_key_ok s"
    by (simp add: primary_key_ok_def task_ids_def ids del: map_map)
  show fk: "foreign_keys_ok (s\<lparr>tasks := map g (tasks s)\<rparr>) = foreign_keys_ok s"
    using assms
    by (simp add: foreign_keys_ok_def task_ids_def ids list_all_iff keeps_keys_def del: map_map)
  show un: "unique_dependencies_ok (s\<lparr>tasks := map g (tasks s)\<rparr>) = unique_dependencies_ok s"
    by (simp add: unique_dependencies_ok_def)
  show "integrity (s\<lparr>tasks := map g (tasks s)\<rparr>) = integrity s"
    by (simp only: integrity_def pk fk un)
qed

lemma keeps_keys_complete_row [simp]: "keeps_keys (complete_row t u now)"
  by (simp add: keeps_keys_def complete_row_def)

lemma keeps_keys_recompute_row [simp]: "keeps_keys (recompute_row ids s)"
  by (simp add: keeps_keys_def recompute_row_def)

lemma keeps_keys_set_status [simp]:
  "keeps_keys (\<lambda>r. if id_col r = x then r\<lparr>status := st, updated_at := u\<rparr> else r)"
  by (simp add: keeps_keys_def)

text \<open>A status update keeps the constraints, and so does a sequence of them.\<close>

lemma updateTaskStatus_integrity:
  "integrity (updateTaskStatusBasedOnDependencies x s) = integrity s"
  "primary_key_ok (updateTaskStatusBasedOnDependencies x s) = primary_key_ok s"
  using updateTaskStatus_cases[of x s]
  by (auto simp: keeps_keys_integrity)

lemma fold_updateTaskStatus_integrity:
  "integrity (fold updateTaskStatusBasedOnDependencies xs s) = integrity s"
  "primary_key_ok (fold updateTaskStatusBasedOnDependencies xs s) = primary_key_ok s"
  by (induction xs arbitrary: s) (simp_all add: updateTaskStatus_integrity)

lemma update_where_total:
  assumes "\<And>r. f r = Inr (g r)"
  shows "update_where m f rows = Inr (map g (filter m rows), map (\<lambda>r. if m r then g r else r) rows)"
  by (induction rows) (simp_all add: assms)

lemma constraint_error_integrity: "integrity s \<Longrightarrow> constraint_error s = None"
  by (simp add: integrity_def constraint_error_def)

text \<open>The statement of a completion, \<^verbatim>\<open>status = 'Completed'\<close>, is accepted by every reader.\<close>

lemma prepare_status_Completed:
  "prepare rd [(''status'', Text ''Completed'')] = Inr [(''status'', TextValue ''Completed'')]"
  by code_simp

lemma update_row_status_Completed:
  "update_row [(''status'', TextValue ''Completed'')] now r
     = Inr (r\<lparr>status := Some Completed, updated_at := Some now\<rparr>)"
  by (simp add: update_row_def store_column_def status_of_text_def)

lemma Task_update_Completed:
  assumes "integrity s" "parameters_ok [taskId, userId]"
  shows "Task_update rd taskId userId [(''status'', Some (Text ''Completed''))] s =
     (Inr (first_row (map (\<lambda>t. t\<lparr>status := Some Completed, updated_at := Some (clock s)\<rparr>)
              (filter (\<lambda>t. id_col t = taskId \<and> user_id t = Some userId) (tasks s)))),
      s\<lparr>tasks := map (complete_row taskId userId (clock s)) (tasks s)\<rparr>)"
proof -
  have rows: "(\<lambda>r. if id_col r = taskId \<and> user_id r = Some userId
                    then r\<lparr>status := Some Completed, updated_at := Some (clock s)\<rparr> else r)
        = complete_row taskId userId (clock s)"
    by (auto simp: complete_row_def)
  have ok: "constraint_error (s\<lparr>tasks := map (complete_row taskId userId (clock s)) (tasks s)\<rparr>) = None"
    using assms(1) by (intro constraint_error_integrity) (simp add: keeps_keys_integrity)
  show ?thesis
    using assms(2)
    by (simp add: Task_update_def update_tasks_def prepare_status_Completed
        update_where_total[OF update_row_status_Completed] rows ok)
qed

text \<open>The store a controller leaves is the store its model call leaves, or the one it found.\<close>

lemma TaskController_addDependency_state:
  "snd (TaskController_addDependency t d u s) = s
   \<or> snd (TaskController_addDependency t d u s) = snd (Task_addDependency t d u s)"
  by (cases "Task_addDependency t d u s")
     (simp add: TaskController_addDependency_def split: option.splits sum.splits)

lemma TaskController_removeDependency_state:
  "snd (TaskController_removeDependency t d u s) = snd (Task_removeDependency t d u s)"
  by (cases "Task_removeDependency t d u s")
     (simp add: TaskController_removeDependency_def split: option.splits sum.splits)

lemma TaskController_markAsCompleted_state:
  "snd (TaskController_markAsCompleted rd t u s) = snd (Task_markAsCompleted rd t u s)"
  by (cases "Task_markAsCompleted rd t u s")
     (simp add: TaskController_markAsCompleted_def split: option.splits sum.splits)

section \<open>The cycle check\<close>

text \<open>
  \<^verbatim>\<open>fromTaskId\<close> is only handed on to the recursive calls: the search never compares a task
  with it, so its result does not depend on it.
\<close>

lemma checkCircularDependency_ignores_fromTaskId:
  "Task_checkCircularDependency s f t vp = Task_checkCircularDependency s f' t vp"
  "Task_checkCircularDependency_rows s f rows vp = Task_checkCircularDependency_rows s f' rows vp"
proof (induction s f t vp and s f rows vp
    rule: Task_checkCircularDependency_Task_checkCircularDependency_rows.induct)
  case (1 s fromTaskId toTaskId visited path)
  then show ?case by simp
next
  case (2 s fromTaskId vp)
  then show ?case by simp
next
  case (3 s fromTaskId dep rows vp)
  obtain found vp' where r: "Task_checkCircularDependency s fromTaskId dep vp = (found, vp')"
    by (cases "Task_checkCircularDependency s fromTaskId dep vp")
  then have r': "Task_checkCircularDependency s f' dep vp = (found, vp')"
    using 3(1) by simp
  show ?case
  proof (cases found)
    case True
    then show ?thesis using r r' by simp
  next
    case False
    then show ?thesis using r r' 3(2)[OF r[symmetric] refl] by simp
  qed
qed

text \<open>
  The search reports a task that is on its own path, that is, a cycle among the existing
  dependencies. Where the dependencies are acyclic every task on the path reaches the
  current one, none is met again, and the answer is false for every pair.
\<close>

lemma dependency_rows_graph:
  "d \<in> set (dependency_rows s t) \<Longrightarrow> (t, d) \<in> dependency_graph s"
  by (auto simp: dependency_rows_def dependency_graph_def dependency_key_def image_iff)

lemma checkCircularDependency_acyclic_aux:
  assumes ac: "acyclic (dependency_graph s)"
  shows "(\<forall>x \<in> snd vp. (x, t) \<in> (dependency_graph s)\<^sup>+) \<longrightarrow>
           fst (Task_checkCircularDependency s f t vp) = False
           \<and> snd (snd (Task_checkCircularDependency s f t vp)) = snd vp"
    and "(\<forall>d \<in> set rows. \<forall>x \<in> snd vp. (x, d) \<in> (dependency_graph s)\<^sup>+) \<longrightarrow>
           fst (Task_checkCircularDependency_rows s f rows vp) = False
           \<and> snd (snd (Task_checkCircularDependency_rows s f rows vp)) = snd vp"
  using ac
proof (induction s f t vp and s f rows vp
    rule: Task_checkCircularDependency_Task_checkCircularDependency_rows.induct)
  case (1 s fromTaskId toTaskId visited path)
  show ?case
  proof (intro impI)
    assume inv: "\<forall>x \<in> snd (visited, path). (x, toTaskId) \<in> (dependency_graph s)\<^sup>+"
    have notin: "toTaskId \<notin> path"
    proof
      assume "toTaskId \<in> path"
      then have "(toTaskId, toTaskId) \<in> (dependency_graph s)\<^sup>+" using inv by simp
      then show False using "1.prems" by (simp add: acyclic_def)
    qed
    show "fst (Task_checkCircularDependency s fromTaskId toTaskId (visited, path)) = False
        \<and> snd (snd (Task_checkCircularDependency s fromTaskId toTaskId (visited, path)))
            = snd (visited, path)"
    proof (cases "toTaskId \<in> visited")
      case True
      then show ?thesis using notin by simp
    next
      case False
      have pre: "\<forall>d \<in> set (dependency_rows s toTaskId).
              \<forall>x \<in> snd (insert toTaskId visited, insert toTaskId path).
                (x, d) \<in> (dependency_graph s)\<^sup>+"
      proof (intro ballI)
        fix d x
        assume d: "d \<in> set (dependency_rows s toTaskId)"
          and x: "x \<in> snd (insert toTaskId visited, insert toTaskId path)"
        have e: "(toTaskId, d) \<in> dependency_graph s"
          using d by (rule dependency_rows_graph)
        show "(x, d) \<in> (dependency_graph s)\<^sup>+"
        proof (cases "x = toTaskId")
          case True
          then show ?thesis using e by auto
        next
          case False
          then have "(x, toTaskId) \<in> (dependency_graph s)\<^sup>+" using x inv by simp
          then show ?thesis using e by (rule trancl_into_trancl)
        qed
      qed
      obtain found visited' path' where r:
        "Task_checkCircularDependency_rows s fromTaskId (dependency_rows s toTaskId)
           (insert toTaskId visited, insert toTaskId path) = (found, visited', path')"
        by (metis prod_cases3)
      have "found = False \<and> path' = insert toTaskId path"
        using "1.IH"[OF notin False "1.prems"] pre r by simp
      then show ?thesis
        using notin False r by simp
    qed
  qed
next
  case (2 s fromTaskId vp)
  then show ?case by simp
next
  case (3 s fromTaskId dep rows vp)
  show ?case
  proof (intro impI)
    assume inv: "\<forall>d \<in> set (dep # rows). \<forall>x \<in> snd vp. (x, d) \<in> (dependency_graph s)\<^sup>+"
    obtain found vp' where r: "Task_checkCircularDependency s fromTaskId dep vp = (found, vp')"
      by (cases "Task_checkCircularDependency s fromTaskId dep vp")
    have first: "found = False \<and> snd vp' = snd vp"
      using "3.IH"(1)[OF "3.prems"] inv r by simp
    then have "fst (Task_checkCircularDependency_rows s fromTaskId rows vp') = False
        \<and> snd (snd (Task_checkCircularDependency_rows s fromTaskId rows vp')) = snd vp'"
      using "3.IH"(2)[OF r[symmetric] refl _ "3.prems"] inv by simp
    then show "fst (Task_checkCircularDependency_rows s fromTaskId (dep # rows) vp) = False
        \<and> snd (snd (Task_checkCircularDependency_rows s fromTaskId (dep # rows) vp)) = snd vp"
      using r first by simp
  qed
qed

lemma checkCircularDependency_acyclic:
  "acyclic (dependency_graph s) \<Longrightarrow> checkCircularDependency fromTaskId toTaskId s \<noteq> Inr True"
  using checkCircularDependency_acyclic_aux(1)[of s "({}, {})" toTaskId fromTaskId]
  by (simp add: checkCircularDependency_def)

text \<open>
  Claim C1. The contract of the cycle check is that \<^verbatim>\<open>wouldCreateCycle(task, dependsOnTask)\<close>
  is true exactly when a path of existing dependencies leads from \<^verbatim>\<open>dependsOnTask\<close> back to
  \<^verbatim>\<open>task\<close> (or the two are equal); with the dependencies 1 \<rightarrow> 2 and 2 \<rightarrow> 3 the probe for
  (task = 3, dependsOn = 1) must report a cycle. The code does not: the path 1 \<rightarrow> 2 \<rightarrow> 3
  exists, and both \<^verbatim>\<open>Task.validateDependencies(3, 1)\<close> and the controller's answer say that
  there is no circular dependency and that the dependency can be added. The probe of a task
  against itself, (3, 3), is answered the same way.
\<close>

theorem C1_cycle_check_misses_path_back_to_task:
  "(1, 2) \<in> dependency_graph (three_tasks Blocked Blocked ToDo [dependency 1 2, dependency 2 3])
   \<and> (2, 3) \<in> dependency_graph (three_tasks Blocked Blocked ToDo [dependency 1 2, dependency 2 3])
   \<and> Task_validateDependencies 3 1
        (three_tasks Blocked Blocked ToDo [dependency 1 2, dependency 2 3]) = Inr False
   \<and> TaskController_validateDependencies 3 1
        (three_tasks Blocked Blocked ToDo [dependency 1 2, dependency 2 3]) = Inr (False, True)
   \<and> Task_validateDependencies 3 3
        (three_tasks Blocked Blocked ToDo [dependency 1 2, dependency 2 3]) = Inr False"
  by code_simp

section \<open>Adding dependencies\<close>

text \<open>So no call of \<^verbatim>\<open>addDependency\<close> on an acyclic graph ends in the cycle error.\<close>

lemma Task_addDependency_never_detects_cycle:
  assumes "acyclic (dependency_graph s)"
  shows "fst (Task_addDependency t d u s)
           \<noteq> Inl (Error ''Adding this dependency would create a circular dependency'')"
proof (cases "checkCircularDependency t d s")
  case (Inl e)
  then have "\<exists>p. e = PgError p"
    by (auto simp: checkCircularDependency_def split: if_splits)
  then show ?thesis
    using Inl by (auto simp: Task_addDependency_def Let_def)
next
  case (Inr hasCircular)
  then have "\<not> hasCircular"
    using checkCircularDependency_acyclic[OF assms, of t d] by simp
  then show ?thesis
    using Inr by (simp add: Task_addDependency_def Let_def split: sum.splits prod.splits)
qed

text \<open>
  Claim C2. Every sequence of \<^verbatim>\<open>AddDependency\<close> calls from an acyclic graph must leave the
  graph acyclic, the call that would close a cycle being rejected. The code accepts it:
  from three tasks without dependencies, adding 1 \<rightarrow> 2, then 2 \<rightarrow> 3, then 3 \<rightarrow> 1 succeeds
  three times (201), and the graph, acyclic at the start, then holds the cycle
  1 \<rightarrow> 2 \<rightarrow> 3 \<rightarrow> 1 (and all three tasks are Blocked on each other).
\<close>

theorem C2_addDependency_closes_cycle:
  "acyclic (dependency_graph (three_tasks ToDo ToDo ToDo []))
   \<and> TaskController_addDependency 1 2 1 (three_tasks ToDo ToDo ToDo [])
       = (Json 201 ''Dependency added successfully'',
          store [rewritten (example_task 1 None Blocked), example_task 2 None ToDo,
                 example_task 3 None ToDo]
            [dependency 1 2])
   \<and> TaskController_addDependency 2 3 1
         (store [rewritten (example_task 1 None Blocked), example_task 2 None ToDo,
                 example_task 3 None ToDo]
            [dependency 1 2])
       = (Json 201 ''Dependency added successfully'',
          store [rewritten (example_task 1 None Blocked), rewritten (example_task 2 None Blocked),
                 example_task 3 None ToDo]
            [dependency 1 2, dependency 2 3])
   \<and> TaskController_addDependency 3 1 1
         (store [rewritten (example_task 1 None Blocked), rewritten (example_task 2 None Blocked),
                 example_task 3 None ToDo]
            [dependency 1 2, dependency 2 3])
       = (Json 201 ''Dependency added successfully'',
          store [rewritten (example_task 1 None Blocked), rewritten (example_task 2 None Blocked),
                 rewritten (example_task 3 None Blocked)]
            [dependency 1 2, dependency 2 3, dependency 3 1])
   \<and> \<not> acyclic (dependency_graph
         (store [rewritten (example_task 1 None Blocked), rewritten (example_task 2 None Blocked),
                 rewritten (example_task 3 None Blocked)]
            [dependency 1 2, dependency 2 3, dependency 3 1]))"
proof -
  let ?s1 = "store [rewritten (example_task 1 None Blocked), example_task 2 None ToDo,
                 example_task 3 None ToDo]
            [dependency 1 2]"
  let ?s2 = "store [rewritten (example_task 1 None Blocked), rewritten (example_task 2 None Blocked),
                 example_task 3 None ToDo]
            [dependency 1 2, dependency 2 3]"
  let ?s3 = "store [rewritten (example_task 1 None Blocked), rewritten (example_task 2 None Blocked),
                 rewritten (example_task 3 None Blocked)]
            [dependency 1 2, dependency 2 3, dependency 3 1]"
  let ?g = "dependency_graph ?s3"
  have start: "acyclic (dependency_graph (three_tasks ToDo ToDo ToDo []))"
    by (simp add: dependency_graph_def three_tasks_def store_def acyclic_def)
  have "(1, 2) \<in> ?g" "(2, 3) \<in> ?g" "(3, 1) \<in> ?g"
    by (simp_all add: dependency_graph_def store_def dependency_def dependency_key_def)
  then have "(1, 1) \<in> ?g\<^sup>+"
    by (meson trancl.intros)
  then have cyclic: "\<not> acyclic ?g"
    by (auto simp: acyclic_def)
  have one: "TaskController_addDependency 1 2 1 (three_tasks ToDo ToDo ToDo [])
       = (Json 201 ''Dependency added successfully'', ?s1)"
    by code_simp
  have two: "TaskController_addDependency 2 3 1 ?s1
       = (Json 201 ''Dependency added successfully'', ?s2)"
    by code_simp
  have three: "TaskController_addDependency 3 1 1 ?s2
       = (Json 201 ''Dependency added successfully'', ?s3)"
    by code_simp
  show ?thesis
    using start one two three cyclic by (intro conjI)
qed

section \<open>Explicit completion\<close>

lemma includes_subtasks_not_completed:
  "message_includes (Error ''Cannot complete task: subtasks are not completed'')
     ''subtasks are not completed''"
  by code_simp

lemma find_map_keeps:
  assumes "\<And>x. P (g x) = P x"
  shows "find P (map g xs) = map_option g (find P xs)"
  by (induction xs) (simp_all add: assms)

lemma filter_eq_distinct:
  "distinct xs \<Longrightarrow> r \<in> set xs \<Longrightarrow> filter (\<lambda>t. t = r) xs = [r]"
  by (induction xs) (auto simp: filter_empty_conv)

lemma find_Some_filter:
  assumes "primary_key_ok s" "find (\<lambda>t. id_col t = x \<and> Q t) (tasks s) = Some r"
  shows "filter (\<lambda>t. id_col t = x \<and> Q t) (tasks s) = [r]"
    and "r \<in> set (tasks s)" and "id_col r = x" and "Q r"
proof -
  from assms(2) obtain i where i: "i < length (tasks s)" "tasks s ! i = r" "id_col r = x \<and> Q r"
    by (auto simp: find_Some_iff)
  then show r: "r \<in> set (tasks s)" and "id_col r = x" and "Q r"
    by auto
  have "\<And>t. t \<in> set (tasks s) \<Longrightarrow> (id_col t = x \<and> Q t) = (t = r)"
    using primary_key_unique[OF assms(1) _ r] i(3) by auto
  then have "filter (\<lambda>t. id_col t = x \<and> Q t) (tasks s) = filter (\<lambda>t. t = r) (tasks s)"
    by (intro filter_cong) auto
  moreover have "distinct (tasks s)"
    using assms(1) by (auto simp: primary_key_ok_def task_ids_def distinct_map)
  ultimately show "filter (\<lambda>t. id_col t = x \<and> Q t) (tasks s) = [r]"
    using r by (simp add: filter_eq_distinct)
qed

text \<open>A task that \<^verbatim>\<open>findById\<close> returns: its ids are in range and it is the caller's row.\<close>

lemma Task_findById_Some:
  assumes "Task_findById t u s = Inr (Some r)"
  shows "parameters_ok [t, u]"
    and "find (\<lambda>q. id_col q = t \<and> user_id q = Some u) (tasks s) = Some r"
    and "r \<in> set (tasks s)" and "id_col r = t" and "user_id r = Some u"
proof -
  show p: "parameters_ok [t, u]"
    using assms by (simp add: Task_findById_def split: if_splits)
  show f: "find (\<lambda>q. id_col q = t \<and> user_id q = Some u) (tasks s) = Some r"
    using assms p by (simp add: Task_findById_def)
  then show "r \<in> set (tasks s)" and "id_col r = t" and "user_id r = Some u"
    by (auto simp: find_Some_iff)
qed

lemma Task_findById_rows:
  assumes "keeps_keys g"
  shows "Task_findById t u (s\<lparr>tasks := map g (tasks s)\<rparr>)
           = map_sum id (map_option g) (Task_findById t u s)"
  using assms by (simp add: Task_findById_def keeps_keys_def find_map_keeps)

lemma recompute_row_Completed: "status r = Some Completed \<Longrightarrow> recompute_row ids s r = r"
  by (simp add: recompute_row_def next_status_def)

lemma recompute_row_other: "id_col r \<notin> ids \<Longrightarrow> recompute_row ids s r = r"
  by (simp add: recompute_row_def)

subsection \<open>What a sequence of status updates does to one task\<close>

text \<open>A status update of another task leaves the task as it is.\<close>

lemma updateTaskStatus_findById_other:
  assumes "y \<noteq> x"
  shows "Task_findById y u (updateTaskStatusBasedOnDependencies x s) = Task_findById y u s"
proof -
  have "Task_findById y u (s\<lparr>tasks := map (\<lambda>r. if id_col r = x
            then r\<lparr>status := Some st, updated_at := Some (clock s)\<rparr> else r) (tasks s)\<rparr>)
        = Task_findById y u s" for st
  proof (cases "Task_findById y u s")
    case (Inl e)
    then show ?thesis
      by (simp add: Task_findById_rows)
  next
    case (Inr found)
    show ?thesis
    proof (cases found)
      case None
      then show ?thesis using Inr by (simp add: Task_findById_rows)
    next
      case (Some r)
      then have "id_col r = y"
        using Task_findById_Some(4)[of y u s r] Inr by simp
      then show ?thesis
        using Inr Some assms by (simp add: Task_findById_rows)
    qed
  qed
  then show ?thesis
    using updateTaskStatus_cases[of x s] by auto
qed

lemma fold_updateTaskStatus_findById_other:
  "y \<notin> set xs \<Longrightarrow>
     Task_findById y u (fold updateTaskStatusBasedOnDependencies xs s) = Task_findById y u s"
  by (induction xs arbitrary: s) (simp_all add: updateTaskStatus_findById_other)

text \<open>
  A status update leaves the Completed rows as they are, so it keeps the fact that all
  targets of a task's dependencies are Completed; a task in that situation has no
  incomplete dependency.
\<close>

lemma filter_map_keeps:
  assumes "\<And>x. P (g x) = P x"
  shows "filter P (map g xs) = map g (filter P xs)"
  by (induction xs) (simp_all add: assms)

lemma updateTaskStatus_dependencies_completed:
  assumes "primary_key_ok s" "dependencies_completed y s"
  shows "dependencies_completed y (updateTaskStatusBasedOnDependencies x s)"
proof -
  have "list_all (\<lambda>t. status t = Some Completed)
          (filter (\<lambda>t. id_col t = d) (map (recompute_row {x} s) (tasks s)))"
    if "list_all (\<lambda>t. status t = Some Completed) (filter (\<lambda>t. id_col t = d) (tasks s))" for d
  proof -
    have "filter (\<lambda>t. id_col t = d) (map (recompute_row {x} s) (tasks s))
          = map (recompute_row {x} s) (filter (\<lambda>t. id_col t = d) (tasks s))"
      by (intro filter_map_keeps) (simp add: recompute_row_def)
    also have "\<dots> = filter (\<lambda>t. id_col t = d) (tasks s)"
      using that by (intro map_idI) (auto simp: list_all_iff recompute_row_Completed)
    finally show ?thesis
      using that by simp
  qed
  then have "list_all (\<lambda>td. list_all (\<lambda>t. status t = Some Completed)
                   (filter (\<lambda>t. id_col t = depends_on_task_id td)
                      (map (recompute_row {x} s) (tasks s))))
          (filter (\<lambda>td. task_id td = y) (task_dependencies s))"
    using assms(2)[unfolded dependencies_completed_def]
    by (intro list.pred_mono_strong[OF assms(2)[unfolded dependencies_completed_def]]) simp
  then show ?thesis
    by (simp add: updateTaskStatus_rows[OF assms(1)] dependencies_completed_def)
qed

lemma dependencies_completed_no_incomplete:
  "dependencies_completed y s \<Longrightarrow> \<not> has_incomplete_dependency y s"
  by (auto simp: dependencies_completed_def has_incomplete_dependency_iff list_all_iff
      status_ne_Completed_def)

text \<open>
  A task that is not Blocked and whose dependencies are all Completed is left as it is by
  every sequence of status updates; so is a Completed task.
\<close>

lemma updateTaskStatus_findById_settled:
  assumes pk: "primary_key_ok s"
    and r: "Task_findById y u s = Inr (Some r)"
    and st: "status r = Some Completed \<or> (dependencies_completed y s \<and> status r \<noteq> Some Blocked)"
  shows "Task_findById y u (updateTaskStatusBasedOnDependencies x s) = Inr (Some r)"
proof (cases "y = x")
  case False
  then show ?thesis
    using r by (simp add: updateTaskStatus_findById_other)
next
  case True
  have "next_status (has_incomplete_dependency y s) (status r) = status r"
    using st dependencies_completed_no_incomplete[of y s] by (auto simp: next_status_def)
  then have "recompute_row {x} s r = r"
    using Task_findById_Some(4)[OF r] by (simp add: recompute_row_def)
  then show ?thesis
    using r by (simp add: updateTaskStatus_rows[OF pk] Task_findById_rows)
qed

lemma fold_updateTaskStatus_findById_settled:
  assumes "primary_key_ok s"
    and "Task_findById y u s = Inr (Some r)"
    and "status r = Some Completed \<or> (dependencies_completed y s \<and> status r \<noteq> Some Blocked)"
  shows "Task_findById y u (fold updateTaskStatusBasedOnDependencies xs s) = Inr (Some r)"
  using assms
proof (induction xs arbitrary: s)
  case Nil
  then show ?case by simp
next
  case (Cons x xs)
  have "status r = Some Completed
        \<or> (dependencies_completed y (updateTaskStatusBasedOnDependencies x s)
            \<and> status r \<noteq> Some Blocked)"
    using Cons.prems(1,3) updateTaskStatus_dependencies_completed by blast
  then show ?case
    using Cons.IH[of "updateTaskStatusBasedOnDependencies x s"] Cons.prems
      updateTaskStatus_findById_settled[OF Cons.prems]
    by (simp add: updateTaskStatus_integrity)
qed

text \<open>
  A Blocked task whose dependencies are all Completed is set to To Do by every sequence of
  status updates that names it.
\<close>

lemma fold_updateTaskStatus_findById_unblocks:
  assumes "primary_key_ok s"
    and "Task_findById y u s = Inr (Some r)"
    and "dependencies_completed y s"
    and "status r = Some Blocked"
    and "y \<in> set xs"
  shows "Task_findById y u (fold updateTaskStatusBasedOnDependencies xs s)
           = Inr (Some (r\<lparr>status := Some ToDo, updated_at := Some (clock s)\<rparr>))"
  using assms
proof (induction xs arbitrary: s)
  case Nil
  then show ?case by simp
next
  case (Cons x xs)
  let ?s1 = "updateTaskStatusBasedOnDependencies x s"
  have pk1: "primary_key_ok ?s1"
    using Cons.prems(1) by (simp add: updateTaskStatus_integrity)
  have dc1: "dependencies_completed y ?s1"
    using Cons.prems(1,3) by (rule updateTaskStatus_dependencies_completed)
  show ?case
  proof (cases "y = x")
    case True
    have "next_status (has_incomplete_dependency y s) (status r) = Some ToDo"
      using Cons.prems(3,4) dependencies_completed_no_incomplete[of y s]
      by (simp add: next_status_def)
    then have "recompute_row {x} s r = r\<lparr>status := Some ToDo, updated_at := Some (clock s)\<rparr>"
      using Task_findById_Some(4)[OF Cons.prems(2)] True Cons.prems(4)
      by (simp add: recompute_row_def)
    then have f1: "Task_findById y u ?s1
        = Inr (Some (r\<lparr>status := Some ToDo, updated_at := Some (clock s)\<rparr>))"
      using Cons.prems(2) by (simp add: updateTaskStatus_rows[OF Cons.prems(1)] Task_findById_rows)
    show ?thesis
      using fold_updateTaskStatus_findById_settled[OF pk1 f1, of xs] dc1 by simp
  next
    case False
    then have f1: "Task_findById y u ?s1 = Inr (Some r)"
      using Cons.prems(2) by (simp add: updateTaskStatus_findById_other)
    have "y \<in> set xs"
      using Cons.prems(5) False by simp
    then show ?thesis
      using Cons.IH[OF pk1 f1 dc1 Cons.prems(4)] by simp
  qed
qed

subsection \<open>Task.markAsCompleted\<close>

text \<open>
  On a store that satisfies its constraints, \<^verbatim>\<open>markAsCompleted\<close> with no subtask in the
  way sets the task's row (if the caller owns it) to Completed and then updates the status
  of every dependent in turn.
\<close>

lemma Task_markAsCompleted_steps:
  assumes "integrity s" "Task_canCompleteTask t s = Inr True" "in_integer_range u"
  shows "Task_markAsCompleted rd t u s =
     (Inr (first_row (map (\<lambda>r. r\<lparr>status := Some Completed, updated_at := Some (clock s)\<rparr>)
              (filter (\<lambda>r. id_col r = t \<and> user_id r = Some u) (tasks s)))),
      fold updateTaskStatusBasedOnDependencies (dependent_rows t s)
        (s\<lparr>tasks := map (complete_row t u (clock s)) (tasks s)\<rparr>))"
proof -
  have p: "parameters_ok [t, u]"
    using assms(2,3) by (simp add: Task_canCompleteTask_def parameters_ok_def split: if_splits)
  have d: "dependent_rows t (s\<lparr>tasks := map (complete_row t u (clock s)) (tasks s)\<rparr>)
             = dependent_rows t s"
    by (simp add: dependent_rows_def)
  show ?thesis
    by (simp add: Task_markAsCompleted_def assms(2) Task_update_Completed[OF assms(1) p] d)
qed

lemma no_subtasks_canComplete:
  "in_integer_range t \<Longrightarrow> filter (\<lambda>q. parent_task_id q = Some t) (tasks s) = [] \<Longrightarrow>
     Task_canCompleteTask t s = Inr True"
  by (auto simp: Task_canCompleteTask_def parameters_ok_def filter_empty_conv)

text \<open>
  The check of the subtasks, where it holds. A subtask whose status is set and is not Completed
  stops the completion of its parent, with the store unchanged; and a task of the caller
  whose subtasks are all Completed is completed.
\<close>

lemma Task_markAsCompleted_refused:
  assumes "in_integer_range t"
    and "q \<in> set (tasks s)" "parent_task_id q = Some t" "status q = Some st" "st \<noteq> Completed"
  shows "Task_markAsCompleted rd t u s
           = (Inl (Error ''Cannot complete task: subtasks are not completed''), s)"
    and "TaskController_markAsCompleted rd t u s = (Json 400 ''Cannot complete task'', s)"
proof -
  have "filter (\<lambda>x. parent_task_id x = Some t \<and> status_ne_Completed (status x)) (tasks s) \<noteq> []"
    using assms(2-5) by (auto simp: filter_empty_conv status_ne_Completed_def)
  then have no: "Task_canCompleteTask t s = Inr False"
    using assms(1) by (simp add: Task_canCompleteTask_def parameters_ok_def)
  then show m: "Task_markAsCompleted rd t u s
        = (Inl (Error ''Cannot complete task: subtasks are not completed''), s)"
    by (simp add: Task_markAsCompleted_def)
  show "TaskController_markAsCompleted rd t u s = (Json 400 ''Cannot complete task'', s)"
    by (simp add: TaskController_markAsCompleted_def m includes_subtasks_not_completed
        del: message_includes.simps)
qed

lemma Task_markAsCompleted_completes:
  assumes int: "integrity s"
    and own: "Task_findById t u s = Inr (Some r)"
    and sub: "\<And>q. q \<in> set (tasks s) \<Longrightarrow> parent_task_id q = Some t \<Longrightarrow> status q = Some Completed"
  shows "fst (Task_markAsCompleted rd t u s)
           = Inr (Some (r\<lparr>status := Some Completed, updated_at := Some (clock s)\<rparr>))"
    and "Task_findById t u (snd (Task_markAsCompleted rd t u s))
           = Inr (Some (r\<lparr>status := Some Completed, updated_at := Some (clock s)\<rparr>))"
    and "fst (TaskController_markAsCompleted rd t u s)
           = Json 200 ''Task marked as completed successfully''"
proof -
  note o = Task_findById_Some[OF own]
  have p: "in_integer_range t" "in_integer_range u"
    using o(1) by (simp_all add: parameters_ok_def)
  have pk: "primary_key_ok s"
    using int by (simp add: integrity_def)
  have "filter (\<lambda>x. parent_task_id x = Some t \<and> status_ne_Completed (status x)) (tasks s) = []"
    using sub by (auto simp: filter_empty_conv status_ne_Completed_def)
  then have can: "Task_canCompleteTask t s = Inr True"
    using p by (simp add: Task_canCompleteTask_def parameters_ok_def)
  note m = Task_markAsCompleted_steps[OF int can p(2), of rd]
  have f: "filter (\<lambda>r. id_col r = t \<and> user_id r = Some u) (tasks s) = [r]"
    using find_Some_filter(1)[OF pk, of t "\<lambda>r. user_id r = Some u" r] o(2) by simp
  show res: "fst (Task_markAsCompleted rd t u s)
           = Inr (Some (r\<lparr>status := Some Completed, updated_at := Some (clock s)\<rparr>))"
    by (simp add: m f first_row_def)
  let ?sc = "s\<lparr>tasks := map (complete_row t u (clock s)) (tasks s)\<rparr>"
  have pkc: "primary_key_ok ?sc"
    using pk by (simp add: keeps_keys_integrity)
  have fc: "Task_findById t u ?sc
      = Inr (Some (r\<lparr>status := Some Completed, updated_at := Some (clock s)\<rparr>))"
    using own o(4,5) by (simp add: Task_findById_rows complete_row_def)
  show "Task_findById t u (snd (Task_markAsCompleted rd t u s))
           = Inr (Some (r\<lparr>status := Some Completed, updated_at := Some (clock s)\<rparr>))"
    using fold_updateTaskStatus_findById_settled[OF pkc fc, of "dependent_rows t s"]
    by (simp add: m)
  show "fst (TaskController_markAsCompleted rd t u s)
          = Json 200 ''Task marked as completed successfully''"
    using res by (cases "Task_markAsCompleted rd t u s") (simp add: TaskController_markAsCompleted_def)
qed

text \<open>
  Claim C6. For every task that has a subtask whose status is not Completed,
  \<^verbatim>\<open>MarkCompleted\<close> must fail with the subtasks-incomplete error and leave the task's status
  unchanged. The code counts the subtasks with \<^verbatim>\<open>status != 'Completed'\<close>, which is not true
  of a subtask whose status is \<^verbatim>\<open>NULL\<close>: such a subtask is not counted and its parent is
  completed. Task 1 has the single subtask 2, In Progress, and cannot be completed (400).
  The request \<^verbatim>\<open>PUT /tasks/2 {"Status": null}\<close> is answered 200 and stores \<^verbatim>\<open>NULL\<close> as the
  status of task 2 (the key is not the validated \<^verbatim>\<open>status\<close>, and names the same column).
  \<^verbatim>\<open>MarkCompleted(1)\<close> is then answered 200, and task 1 is Completed while its subtask 2 is
  not.
\<close>

theorem C6_markAsCompleted_passes_subtask_without_status:
  "TaskController_markAsCompleted rd 1 1
       (store [example_task 1 None ToDo, example_task 2 (Some 1) InProgress] [])
     = (Json 400 ''Cannot complete task'',
        store [example_task 1 None ToDo, example_task 2 (Some 1) InProgress] [])
   \<and> TaskController_updateTask rd 2 1 [(''Status'', Some Null)]
       (store [example_task 1 None ToDo, example_task 2 (Some 1) InProgress] [])
     = (Json 200 ''Task updated successfully'',
        store [example_task 1 None ToDo,
               rewritten ((example_task 2 (Some 1) InProgress)\<lparr>status := None\<rparr>)] [])
   \<and> Task_canCompleteTask 1
       (store [example_task 1 None ToDo,
               rewritten ((example_task 2 (Some 1) InProgress)\<lparr>status := None\<rparr>)] [])
     = Inr True
   \<and> Task_markAsCompleted rd 1 1
       (store [example_task 1 None ToDo,
               rewritten ((example_task 2 (Some 1) InProgress)\<lparr>status := None\<rparr>)] [])
     = (Inr (Some (rewritten (example_task 1 None Completed))),
        store [rewritten (example_task 1 None Completed),
               rewritten ((example_task 2 (Some 1) InProgress)\<lparr>status := None\<rparr>)] [])
   \<and> TaskController_markAsCompleted rd 1 1
       (store [example_task 1 None ToDo,
               rewritten ((example_task 2 (Some 1) InProgress)\<lparr>status := None\<rparr>)] [])
     = (Json 200 ''Task marked as completed successfully'',
        store [rewritten (example_task 1 None Completed),
               rewritten ((example_task 2 (Some 1) InProgress)\<lparr>status := None\<rparr>)] [])
   \<and> status (rewritten ((example_task 2 (Some 1) InProgress)\<lparr>status := None\<rparr>)) \<noteq> Some Completed"
  by code_simp

section \<open>Cascading unblock\<close>

lemma no_subtasks_iff:
  "filter (\<lambda>q. parent_task_id q = Some t) rows = [] \<longleftrightarrow> Some t \<notin> set (map parent_task_id rows)"
  by (force simp: filter_empty_conv image_iff)

lemma updateTaskStatus_parents:
  "map parent_task_id (tasks (updateTaskStatusBasedOnDependencies x s)) = map parent_task_id (tasks s)"
  using updateTaskStatus_cases[of x s] by (auto simp: comp_def)

lemma fold_updateTaskStatus_parents:
  "map parent_task_id (tasks (fold updateTaskStatusBasedOnDependencies xs s))
     = map parent_task_id (tasks s)"
  by (induction xs arbitrary: s) (simp_all add: updateTaskStatus_parents)

text \<open>
  Once a task of the caller has been set to Completed, a task all of whose dependencies
  name it has all its dependencies Completed.
\<close>

lemma dependencies_completed_after_completion:
  assumes pk: "primary_key_ok s"
    and c: "Task_findById c u s = Inr (Some rc)"
    and d: "set (dependency_rows s y) \<subseteq> {c}"
  shows "dependencies_completed y (s\<lparr>tasks := map (complete_row c u now) (tasks s)\<rparr>)"
proof -
  note o = Task_findById_Some[OF c]
  have "status t = Some Completed"
    if td: "td \<in> set (task_dependencies s)" "task_id td = y"
      and t: "t \<in> set (map (complete_row c u now) (tasks s))" "id_col t = depends_on_task_id td"
    for td t
  proof -
    have "depends_on_task_id td \<in> set (dependency_rows s y)"
      using td by (auto simp: dependency_rows_def)
    then have dc: "depends_on_task_id td = c"
      using d by auto
    from t(1) obtain r where r: "r \<in> set (tasks s)" "t = complete_row c u now r"
      by auto
    then have "id_col r = c"
      using t(2) dc by (simp add: complete_row_def split: if_splits)
    then have "r = rc"
      using primary_key_unique[OF pk r(1) o(3)] o(4) by simp
    then show ?thesis
      using r(2) o(4,5) by (simp add: complete_row_def)
  qed
  then show ?thesis
    by (auto simp: dependencies_completed_def list_all_iff)
qed

text \<open>
  One step of the cascade. In a store that satisfies its constraints, completing a task C
  of the caller that has no subtasks succeeds, sets to To Do a Blocked task B of the caller
  whose only dependency is C, and leaves as it is every task that does not depend on C.
\<close>

lemma Task_markAsCompleted_unblocks:
  assumes int: "integrity s"
    and tc: "Task_findById c u s = Inr (Some rc)"
    and nc: "filter (\<lambda>q. parent_task_id q = Some c) (tasks s) = []"
    and tb: "Task_findById b u s = Inr (Some rb)" "status rb = Some Blocked"
    and bc: "dependency_rows s b = [c]"
    and ne: "b \<noteq> c"
  shows "fst (Task_markAsCompleted rd c u s)
           = Inr (Some (rc\<lparr>status := Some Completed, updated_at := Some (clock s)\<rparr>))"
    and "Task_findById b u (snd (Task_markAsCompleted rd c u s))
           = Inr (Some (rb\<lparr>status := Some ToDo, updated_at := Some (clock s)\<rparr>))"
    and "integrity (snd (Task_markAsCompleted rd c u s))"
    and "task_dependencies (snd (Task_markAsCompleted rd c u s)) = task_dependencies s"
    and "map parent_task_id (tasks (snd (Task_markAsCompleted rd c u s)))
           = map parent_task_id (tasks s)"
    and "\<And>x. x \<noteq> c \<Longrightarrow> x \<notin> set (dependent_rows c s) \<Longrightarrow>
           Task_findById x u (snd (Task_markAsCompleted rd c u s)) = Task_findById x u s"
proof -
  have pk: "primary_key_ok s"
    using int by (simp add: integrity_def)
  note ob = Task_findById_Some[OF tb(1)]
  note oc = Task_findById_Some[OF tc]
  have range: "in_integer_range c" "in_integer_range u"
    using oc(1) by (simp_all add: parameters_ok_def)
  have canc: "Task_canCompleteTask c s = Inr True"
    using range(1) nc by (rule no_subtasks_canComplete)
  let ?sc = "s\<lparr>tasks := map (complete_row c u (clock s)) (tasks s)\<rparr>"
  let ?s1 = "snd (Task_markAsCompleted rd c u s)"
  note m1 = Task_markAsCompleted_steps[OF int canc range(2), where rd = rd]
  have s1: "?s1 = fold updateTaskStatusBasedOnDependencies (dependent_rows c s) ?sc"
    by (simp add: m1)
  have fc: "filter (\<lambda>r. id_col r = c \<and> user_id r = Some u) (tasks s) = [rc]"
    using find_Some_filter(1)[OF pk, of c "\<lambda>r. user_id r = Some u" rc] oc(2) by simp
  show "fst (Task_markAsCompleted rd c u s)
           = Inr (Some (rc\<lparr>status := Some Completed, updated_at := Some (clock s)\<rparr>))"
    by (simp add: m1 fc first_row_def)
  have pkc: "primary_key_ok ?sc"
    using pk by (simp add: keeps_keys_integrity)
  have cb: "Task_findById b u ?sc = Inr (Some rb)"
    using tb(1) ob(4) ne by (simp add: Task_findById_rows complete_row_def)
  have b_D: "b \<in> set (dependent_rows c s)"
  proof -
    have "c \<in> set (dependency_rows s b)" using bc by simp
    then show ?thesis by (auto simp: dependent_rows_def dependency_rows_def)
  qed
  have dcb: "dependencies_completed b ?sc"
    using bc by (intro dependencies_completed_after_completion[OF pk tc]) simp
  show "Task_findById b u ?s1
      = Inr (Some (rb\<lparr>status := Some ToDo, updated_at := Some (clock s)\<rparr>))"
    using fold_updateTaskStatus_findById_unblocks[OF pkc cb dcb tb(2) b_D]
    by (simp add: s1)
  show "integrity ?s1"
    using int by (simp add: s1 fold_updateTaskStatus_integrity keeps_keys_integrity)
  show "task_dependencies ?s1 = task_dependencies s"
    by (simp add: s1)
  show "map parent_task_id (tasks ?s1) = map parent_task_id (tasks s)"
    by (simp add: s1 fold_updateTaskStatus_parents complete_row_def comp_def)
  show "Task_findById x u ?s1 = Task_findById x u s"
    if x: "x \<noteq> c" "x \<notin> set (dependent_rows c s)" for x
  proof -
    have "Task_findById x u ?sc = Task_findById x u s"
    proof (cases "Task_findById x u s")
      case (Inl e)
      then show ?thesis by (simp add: Task_findById_rows)
    next
      case (Inr found)
      show ?thesis
      proof (cases found)
        case None
        then show ?thesis using Inr by (simp add: Task_findById_rows)
      next
        case (Some r)
        then have "id_col r = x"
          using Task_findById_Some(4)[of x u s r] Inr by simp
        then show ?thesis
          using Inr Some x(1) by (simp add: Task_findById_rows complete_row_def)
      qed
    qed
    then show ?thesis
      using x(2) by (simp add: s1 fold_updateTaskStatus_findById_other)
  qed
qed

text \<open>The clock is read by the statements that write; nothing else depends on it.\<close>

lemma clock_update [simp]:
  "integrity (s\<lparr>clock := now\<rparr>) = integrity s"
  "Task_findById t u (s\<lparr>clock := now\<rparr>) = Task_findById t u s"
  "dependency_rows (s\<lparr>clock := now\<rparr>) t = dependency_rows s t"
  by (simp_all add: integrity_def primary_key_ok_def foreign_keys_ok_def unique_dependencies_ok_def
      task_ids_def Task_findById_def dependency_rows_def)

text \<open>
  Claim C8. Tasks A, B, C of one owner, A depending on B only and B on C only, A and B
  Blocked, B and C without subtasks. \<^verbatim>\<open>MarkCompleted(C)\<close> succeeds, leaves A as it was and
  turns B to To Do; \<^verbatim>\<open>MarkCompleted(B)\<close>, at that or any later time, then succeeds and
  leaves A with status To Do (and the time of that call as its \<^verbatim>\<open>updated_at\<close>). No call
  names A.
\<close>

theorem C8_completion_unblocks_transitive_dependent:
  assumes int: "integrity s"
    and abc: "a \<noteq> b" "b \<noteq> c" "a \<noteq> c"
    and ta: "Task_findById a u s = Inr (Some ra)" "status ra = Some Blocked"
    and tb: "Task_findById b u s = Inr (Some rb)" "status rb = Some Blocked"
    and tc: "Task_findById c u s = Inr (Some rc)"
    and ab: "dependency_rows s a = [b]"
    and bc: "dependency_rows s b = [c]"
    and nb: "filter (\<lambda>q. parent_task_id q = Some b) (tasks s) = []"
    and nc: "filter (\<lambda>q. parent_task_id q = Some c) (tasks s) = []"
  shows "fst (Task_markAsCompleted rd c u s)
           = Inr (Some (rc\<lparr>status := Some Completed, updated_at := Some (clock s)\<rparr>))
     \<and> Task_findById a u (snd (Task_markAsCompleted rd c u s)) = Inr (Some ra)
     \<and> Task_findById b u (snd (Task_markAsCompleted rd c u s))
           = Inr (Some (rb\<lparr>status := Some ToDo, updated_at := Some (clock s)\<rparr>))
     \<and> fst (Task_markAsCompleted rd b u ((snd (Task_markAsCompleted rd c u s))\<lparr>clock := later\<rparr>))
          = Inr (Some (rb\<lparr>status := Some Completed, updated_at := Some later\<rparr>))
     \<and> Task_findById a u
          (snd (Task_markAsCompleted rd b u ((snd (Task_markAsCompleted rd c u s))\<lparr>clock := later\<rparr>)))
          = Inr (Some (ra\<lparr>status := Some ToDo, updated_at := Some later\<rparr>))
     \<and> Task_findById a u
          (snd (TaskController_markAsCompleted rd b u
             ((snd (TaskController_markAsCompleted rd c u s))\<lparr>clock := later\<rparr>)))
          = Inr (Some (ra\<lparr>status := Some ToDo, updated_at := Some later\<rparr>))"
proof -
  \<comment> \<open>the first call\<close>
  let ?s1 = "snd (Task_markAsCompleted rd c u s)"
  note first = Task_markAsCompleted_unblocks[OF int tc nc tb bc abc(2), where rd = rd]
  have a_not_D1: "a \<notin> set (dependent_rows c s)"
  proof
    assume "a \<in> set (dependent_rows c s)"
    then have "c \<in> set (dependency_rows s a)"
      by (auto simp: dependent_rows_def dependency_rows_def)
    then show False using ab abc by simp
  qed
  have f1a: "Task_findById a u ?s1 = Inr (Some ra)"
    using first(6)[OF abc(3) a_not_D1] ta(1) by simp
  \<comment> \<open>the store at the time of the second call\<close>
  let ?t1 = "?s1\<lparr>clock := later\<rparr>"
  have intl: "integrity ?t1"
    using first(3) by simp
  have flb: "Task_findById b u ?t1
      = Inr (Some (rb\<lparr>status := Some ToDo, updated_at := Some (clock s)\<rparr>))"
    using first(2) by simp
  have fla: "Task_findById a u ?t1 = Inr (Some ra)"
    using f1a by simp
  have "Some b \<notin> set (map parent_task_id (tasks s))"
    using nb[unfolded no_subtasks_iff] .
  then have "Some b \<notin> set (map parent_task_id (tasks ?s1))"
    unfolding first(5) .
  then have "filter (\<lambda>q. parent_task_id q = Some b) (tasks ?s1) = []"
    unfolding no_subtasks_iff .
  then have nbl: "filter (\<lambda>q. parent_task_id q = Some b) (tasks ?t1) = []"
    by simp
  have abl: "dependency_rows ?t1 a = [b]"
    using ab by (simp add: dependency_rows_def first(4))
  \<comment> \<open>the second call\<close>
  note second = Task_markAsCompleted_unblocks[OF intl flb nbl fla ta(2) abl abc(1), where rd = rd]
  have r2: "fst (Task_markAsCompleted rd b u ?t1)
      = Inr (Some (rb\<lparr>status := Some Completed, updated_at := Some later\<rparr>))"
    using second(1) by simp
  have f2a: "Task_findById a u (snd (Task_markAsCompleted rd b u ?t1))
      = Inr (Some (ra\<lparr>status := Some ToDo, updated_at := Some later\<rparr>))"
    using second(2) by simp
  have f2c: "Task_findById a u
          (snd (TaskController_markAsCompleted rd b u
             ((snd (TaskController_markAsCompleted rd c u s))\<lparr>clock := later\<rparr>)))
          = Inr (Some (ra\<lparr>status := Some ToDo, updated_at := Some later\<rparr>))"
    using f2a by (simp only: TaskController_markAsCompleted_state)
  show ?thesis
    using first(1) f1a first(2) r2 f2a f2c by (intro conjI)
qed

text \<open>The second call is made at time 12.\<close>

theorem C8_completion_unblocks_transitive_dependent_witness:
  "\<forall>rd.
     fst (Task_markAsCompleted rd 3 1
          (three_tasks Blocked Blocked ToDo [dependency 1 2, dependency 2 3]))
       = Inr (Some (rewritten (example_task 3 None Completed)))
     \<and> Task_findById 2 1 (snd (Task_markAsCompleted rd 3 1
          (three_tasks Blocked Blocked ToDo [dependency 1 2, dependency 2 3])))
       = Inr (Some (rewritten (example_task 2 None ToDo)))
     \<and> fst (Task_markAsCompleted rd 2 1 ((snd (Task_markAsCompleted rd 3 1
          (three_tasks Blocked Blocked ToDo [dependency 1 2, dependency 2 3])))\<lparr>clock := 12\<rparr>))
       = Inr (Some ((example_task 2 None Completed)\<lparr>updated_at := Some 12\<rparr>))
     \<and> Task_findById 1 1 (snd (Task_markAsCompleted rd 2 1 ((snd (Task_markAsCompleted rd 3 1
          (three_tasks Blocked Blocked ToDo [dependency 1 2, dependency 2 3])))\<lparr>clock := 12\<rparr>)))
       = Inr (Some ((example_task 1 None ToDo)\<lparr>updated_at := Some 12\<rparr>))
     \<and> Task_findById 1 1 (snd (TaskController_markAsCompleted rd 2 1
          ((snd (TaskController_markAsCompleted rd 3 1
            (three_tasks Blocked Blocked ToDo [dependency 1 2, dependency 2 3])))\<lparr>clock := 12\<rparr>)))
       = Inr (Some ((example_task 1 None ToDo)\<lparr>updated_at := Some 12\<rparr>))"
proof
  fix rd :: reader
  let ?s = "three_tasks Blocked Blocked ToDo [dependency 1 2, dependency 2 3]"
  have int: "integrity ?s"
    by code_simp
  have ne: "(1::int) \<noteq> 2" "(2::int) \<noteq> 3" "(1::int) \<noteq> 3"
    by simp_all
  have ta: "Task_findById 1 1 ?s = Inr (Some (example_task 1 None Blocked))"
    and tb: "Task_findById 2 1 ?s = Inr (Some (example_task 2 None Blocked))"
    and tc: "Task_findById 3 1 ?s = Inr (Some (example_task 3 None ToDo))"
    by code_simp+
  have st: "status (example_task 1 None Blocked) = Some Blocked"
    "status (example_task 2 None Blocked) = Some Blocked"
    by (simp_all add: example_task_def)
  have ab: "dependency_rows ?s 1 = [2]" and bc: "dependency_rows ?s 2 = [3]"
    by code_simp+
  have nb: "filter (\<lambda>q. parent_task_id q = Some 2) (tasks ?s) = []"
    and nc: "filter (\<lambda>q. parent_task_id q = Some 3) (tasks ?s) = []"
    by (simp_all add: three_tasks_def store_def example_task_def)
  have e: "(example_task 3 None ToDo)\<lparr>status := Some Completed, updated_at := Some (clock ?s)\<rparr>
             = rewritten (example_task 3 None Completed)"
    "(example_task 2 None Blocked)\<lparr>status := Some ToDo, updated_at := Some (clock ?s)\<rparr>
             = rewritten (example_task 2 None ToDo)"
    "(example_task 2 None Blocked)\<lparr>status := Some Completed, updated_at := Some 12\<rparr>
             = (example_task 2 None Completed)\<lparr>updated_at := Some 12\<rparr>"
    "(example_task 1 None Blocked)\<lparr>status := Some ToDo, updated_at := Some 12\<rparr>
             = (example_task 1 None ToDo)\<lparr>updated_at := Some 12\<rparr>"
    by (simp_all add: example_task_def rewritten_def three_tasks_def store_def)
  from C8_completion_unblocks_transitive_dependent
         [OF int ne ta st(1) tb st(2) tc ab bc nb nc, of rd 12]
  show "fst (Task_markAsCompleted rd 3 1 ?s)
       = Inr (Some (rewritten (example_task 3 None Completed)))
     \<and> Task_findById 2 1 (snd (Task_markAsCompleted rd 3 1 ?s))
       = Inr (Some (rewritten (example_task 2 None ToDo)))
     \<and> fst (Task_markAsCompleted rd 2 1 ((snd (Task_markAsCompleted rd 3 1 ?s))\<lparr>clock := 12\<rparr>))
       = Inr (Some ((example_task 2 None Completed)\<lparr>updated_at := Some 12\<rparr>))
     \<and> Task_findById 1 1
          (snd (Task_markAsCompleted rd 2 1 ((snd (Task_markAsCompleted rd 3 1 ?s))\<lparr>clock := 12\<rparr>)))
       = Inr (Some ((example_task 1 None ToDo)\<lparr>updated_at := Some 12\<rparr>))
     \<and> Task_findById 1 1 (snd (TaskController_markAsCompleted rd 2 1
          ((snd (TaskController_markAsCompleted rd 3 1 ?s))\<lparr>clock := 12\<rparr>)))
       = Inr (Some ((example_task 1 None ToDo)\<lparr>updated_at := Some 12\<rparr>))"
    by (simp only: e)
qed

section \<open>Blocked exactly when a dependency is incomplete\<close>

lemma next_status_consistent:
  "(next_status h st = Some Blocked) = (h \<and> next_status h st \<noteq> Some Completed)"
  by (auto simp: next_status_def)

lemma status_recompute_row:
  "id_col r \<in> ids \<Longrightarrow>
     status (recompute_row ids s r) = next_status (has_incomplete_dependency (id_col r) s) (status r)"
  by (simp add: recompute_row_def)

lemma has_target_not_Completed_iff:
  "has_target_not_Completed x s \<longleftrightarrow>
     (\<exists>td \<in> set (task_dependencies s). task_id td = x \<and>
        (\<exists>t \<in> set (tasks s). id_col t = depends_on_task_id td \<and> status t \<noteq> Some Completed))"
  by (auto simp: has_target_not_Completed_def list_ex_iff)

text \<open>Without \<^verbatim>\<open>NULL\<close> statuses, SQL's comparison is the inequality.\<close>

lemma statuses_set_incomplete:
  assumes "statuses_set s"
  shows "has_incomplete_dependency y s = has_target_not_Completed y s"
proof -
  have "status_ne_Completed (status t) = (status t \<noteq> Some Completed)" if "t \<in> set (tasks s)" for t
    using assms that by (auto simp: statuses_set_def list_all_iff status_ne_Completed_def)
  then show ?thesis
    unfolding has_incomplete_dependency_iff has_target_not_Completed_iff by blast
qed

lemma statuses_set_settled:
  assumes "statuses_set s"
  shows "blocked_consistent s = settled s"
proof -
  have "row_consistent s = row_settled s"
    by (rule ext) (simp add: row_consistent_def row_settled_def statuses_set_incomplete[OF assms])
  then show ?thesis
    by (simp add: blocked_consistent_def settled_def)
qed

text \<open>
  A rewrite of the rows that keeps the keys and which statuses SQL finds different from
  \<^verbatim>\<open>'Completed'\<close> keeps which tasks have an incomplete dependency. The status update is
  one when no status is \<^verbatim>\<open>NULL\<close>.
\<close>

lemma has_incomplete_map:
  assumes "\<And>t. t \<in> set (tasks s) \<Longrightarrow> id_col (g t) = id_col t
             \<and> status_ne_Completed (status (g t)) = status_ne_Completed (status t)"
  shows "has_incomplete_dependency y (s\<lparr>tasks := map g (tasks s)\<rparr>) = has_incomplete_dependency y s"
  unfolding has_incomplete_dependency_iff using assms by (simp add: Bex_def)

lemma has_incomplete_recompute_row:
  assumes "statuses_set s"
  shows "has_incomplete_dependency y (s\<lparr>tasks := map (recompute_row ids s) (tasks s)\<rparr>)
           = has_incomplete_dependency y s"
proof (rule has_incomplete_map)
  fix t
  assume "t \<in> set (tasks s)"
  then have "status t \<noteq> None"
    using assms by (simp add: statuses_set_def list_all_iff)
  then show "id_col (recompute_row ids s t) = id_col t
      \<and> status_ne_Completed (status (recompute_row ids s t)) = status_ne_Completed (status t)"
    by (simp add: recompute_row_def next_status_ne_Completed)
qed

lemma statuses_set_map:
  assumes "statuses_set s" "\<And>t. status t \<noteq> None \<Longrightarrow> status (g t) \<noteq> None"
  shows "statuses_set (s\<lparr>tasks := map g (tasks s)\<rparr>)"
  using assms by (simp add: statuses_set_def list_all_iff)

lemma updateTaskStatus_statuses_set:
  "statuses_set s \<Longrightarrow> statuses_set (updateTaskStatusBasedOnDependencies x s)"
  using updateTaskStatus_cases[of x s] by (auto intro!: statuses_set_map)

lemma fold_updateTaskStatus_statuses_set:
  "statuses_set s \<Longrightarrow> statuses_set (fold updateTaskStatusBasedOnDependencies xs s)"
  by (induction xs arbitrary: s) (simp_all add: updateTaskStatus_statuses_set)

text \<open>
  In a store without \<^verbatim>\<open>NULL\<close> statuses a sequence of status updates is one rewrite of the
  rows: each row of a task it names gets the status the decision table gives it.
\<close>

lemma recompute_row_twice:
  assumes "has_incomplete_dependency (id_col t) s1 = has_incomplete_dependency (id_col t) s"
    and "clock s1 = clock s"
  shows "recompute_row {x} s1 (recompute_row ids s t) = recompute_row (insert x ids) s t"
  using assms by (auto simp: recompute_row_def)

lemma fold_updateTaskStatus_rows:
  assumes "primary_key_ok s" "statuses_set s"
  shows "fold updateTaskStatusBasedOnDependencies xs (s\<lparr>tasks := map (recompute_row ids s) (tasks s)\<rparr>)
         = s\<lparr>tasks := map (recompute_row (ids \<union> set xs) s) (tasks s)\<rparr>"
proof (induction xs arbitrary: ids)
  case Nil
  then show ?case by simp
next
  case (Cons x xs)
  let ?s1 = "s\<lparr>tasks := map (recompute_row ids s) (tasks s)\<rparr>"
  have pk1: "primary_key_ok ?s1"
    using assms(1) by (simp add: keeps_keys_integrity)
  have "recompute_row {x} ?s1 (recompute_row ids s t) = recompute_row (insert x ids) s t" for t
    by (intro recompute_row_twice has_incomplete_recompute_row[OF assms(2)]) simp
  then have "updateTaskStatusBasedOnDependencies x ?s1
        = s\<lparr>tasks := map (recompute_row (insert x ids) s) (tasks s)\<rparr>"
    by (simp add: updateTaskStatus_rows[OF pk1])
  then show ?case
    using Cons.IH[of "insert x ids"] by simp
qed

lemma recompute_row_empty [simp]: "map (recompute_row {} s) rows = rows"
  by (intro map_idI) (simp add: recompute_row_def)

lemma fold_updateTaskStatus:
  assumes "primary_key_ok s" "statuses_set s"
  shows "fold updateTaskStatusBasedOnDependencies xs s
         = s\<lparr>tasks := map (recompute_row (set xs) s) (tasks s)\<rparr>"
  using fold_updateTaskStatus_rows[OF assms, of xs "{}"] by simp

text \<open>Updating the status of a task twice in a row is updating it once.\<close>

lemma updateTaskStatus_idempotent:
  assumes "primary_key_ok s" "statuses_set s"
  shows "updateTaskStatusBasedOnDependencies t (updateTaskStatusBasedOnDependencies t s)
           = updateTaskStatusBasedOnDependencies t s"
  using fold_updateTaskStatus[OF assms, of "[t, t]"] fold_updateTaskStatus[OF assms, of "[t]"]
  by simp

lemma has_incomplete_dependency_cong:
  assumes "tasks s1 = tasks s"
    and "filter (\<lambda>td. task_id td = y) (task_dependencies s1) = filter (\<lambda>td. task_id td = y) (task_dependencies s)"
  shows "has_incomplete_dependency y s1 = has_incomplete_dependency y s"
    and "has_dependency y s1 = has_dependency y s"
  using assms
  by (simp_all add: has_incomplete_dependency_def incomplete_dependencies_def has_dependency_def
      dependency_rows_def)

lemma has_dependency_rows [simp]:
  "has_dependency y (s\<lparr>tasks := rows\<rparr>) = has_dependency y s"
  by (simp add: has_dependency_def dependency_rows_def)

text \<open>
  The status update of a task settles that task, and leaves settled every other task that
  was.
\<close>

lemma updateTaskStatus_settled:
  assumes pk: "primary_key_ok s" and ns: "statuses_set s"
    and others: "\<And>r. r \<in> set (tasks s) \<Longrightarrow> id_col r \<noteq> t \<Longrightarrow> row_settled s r"
  shows "settled (updateTaskStatusBasedOnDependencies t s)"
proof -
  let ?s' = "s\<lparr>tasks := map (recompute_row {t} s) (tasks s)\<rparr>"
  have h: "\<And>y. has_incomplete_dependency y ?s' = has_incomplete_dependency y s"
    by (rule has_incomplete_recompute_row[OF ns])
  have "row_settled ?s' (recompute_row {t} s r)" if r: "r \<in> set (tasks s)" for r
  proof (cases "id_col r = t")
    case True
    have i: "id_col (recompute_row {t} s r) = id_col r"
      by (simp add: recompute_row_def)
    show ?thesis
      using next_status_consistent[of "has_incomplete_dependency t s" "status r"] True
      unfolding row_settled_def i h by (simp add: status_recompute_row)
  next
    case False
    then show ?thesis
      using others[OF r False] by (simp add: row_settled_def recompute_row_def h)
  qed
  then show ?thesis
    by (simp add: updateTaskStatus_rows[OF pk] settled_def list_all_iff)
qed

lemma Task_addDependency_state:
  "snd (Task_addDependency t d u s) = s
   \<or> snd (Task_addDependency t d u s)
       = updateTaskStatusBasedOnDependencies t
           (s\<lparr>task_dependencies := task_dependencies s @ [\<lparr>task_id = t, depends_on_task_id = d\<rparr>]\<rparr>)"
  by (auto simp: Task_addDependency_def insert_task_dependency_def Let_def
      split: option.splits if_splits sum.splits)

lemma Task_addDependency_settled:
  assumes pk: "primary_key_ok s" and ns: "statuses_set s" and c: "settled s"
  shows "settled (snd (Task_addDependency t d u s))"
    and "statuses_set (snd (Task_addDependency t d u s))"
proof -
  let ?s1 = "s\<lparr>task_dependencies := task_dependencies s @ [\<lparr>task_id = t, depends_on_task_id = d\<rparr>]\<rparr>"
  have pk1: "primary_key_ok ?s1"
    using pk by (simp add: primary_key_ok_def task_ids_def)
  have ns1: "statuses_set ?s1"
    using ns by (simp add: statuses_set_def)
  have "row_settled ?s1 r" if "r \<in> set (tasks ?s1)" "id_col r \<noteq> t" for r
  proof -
    have "row_settled s r"
      using c that by (simp add: settled_def list_all_iff)
    moreover have "has_incomplete_dependency (id_col r) ?s1 = has_incomplete_dependency (id_col r) s"
      using that(2) by (intro has_incomplete_dependency_cong(1)) simp_all
    moreover have "has_dependency (id_col r) ?s1 = has_dependency (id_col r) s"
      using that(2) by (intro has_incomplete_dependency_cong(2)) simp_all
    ultimately show ?thesis
      by (simp add: row_settled_def)
  qed
  then have "settled (updateTaskStatusBasedOnDependencies t ?s1)"
    using updateTaskStatus_settled[OF pk1 ns1] by simp
  then show "settled (snd (Task_addDependency t d u s))"
    using Task_addDependency_state[of t d u s] c by auto
  show "statuses_set (snd (Task_addDependency t d u s))"
    using Task_addDependency_state[of t d u s] ns updateTaskStatus_statuses_set[OF ns1] by auto
qed

lemma Task_removeDependency_state:
  "snd (Task_removeDependency t d u s) = s
   \<or> snd (Task_removeDependency t d u s)
       = updateTaskStatusBasedOnDependencies t
           (s\<lparr>task_dependencies :=
                filter (\<lambda>td. \<not> (task_id td = t \<and> depends_on_task_id td = d)) (task_dependencies s)\<rparr>)"
  by (simp add: Task_removeDependency_def Let_def)

lemma Task_removeDependency_settled:
  assumes pk: "primary_key_ok s" and ns: "statuses_set s" and c: "settled s"
  shows "settled (snd (Task_removeDependency t d u s))"
    and "statuses_set (snd (Task_removeDependency t d u s))"
proof -
  let ?s1 = "s\<lparr>task_dependencies :=
                filter (\<lambda>td. \<not> (task_id td = t \<and> depends_on_task_id td = d)) (task_dependencies s)\<rparr>"
  have pk1: "primary_key_ok ?s1"
    using pk by (simp add: primary_key_ok_def task_ids_def)
  have ns1: "statuses_set ?s1"
    using ns by (simp add: statuses_set_def)
  have "row_settled ?s1 r" if "r \<in> set (tasks ?s1)" "id_col r \<noteq> t" for r
  proof -
    have "row_settled s r"
      using c that by (simp add: settled_def list_all_iff)
    moreover have f: "filter (\<lambda>td. task_id td = id_col r) (task_dependencies ?s1)
        = filter (\<lambda>td. task_id td = id_col r) (task_dependencies s)"
      using that(2) by (auto intro: filter_cong)
    have "has_incomplete_dependency (id_col r) ?s1 = has_incomplete_dependency (id_col r) s"
      using f by (intro has_incomplete_dependency_cong(1)) simp_all
    moreover have "has_dependency (id_col r) ?s1 = has_dependency (id_col r) s"
      using f by (intro has_incomplete_dependency_cong(2)) simp_all
    ultimately show ?thesis
      by (simp add: row_settled_def)
  qed
  then have "settled (updateTaskStatusBasedOnDependencies t ?s1)"
    using updateTaskStatus_settled[OF pk1 ns1] by simp
  then show "settled (snd (Task_removeDependency t d u s))"
    using Task_removeDependency_state[of t d u s] c by auto
  show "statuses_set (snd (Task_removeDependency t d u s))"
    using Task_removeDependency_state[of t d u s] ns updateTaskStatus_statuses_set[OF ns1] by auto
qed

lemma filter_complete_row_other:
  "k \<noteq> t \<Longrightarrow> filter (\<lambda>x. id_col x = k \<and> P x) (map (complete_row t u now) rows)
       = filter (\<lambda>x. id_col x = k \<and> P x) rows"
  by (induction rows) (auto simp: complete_row_def)

text \<open>
  A call of \<^verbatim>\<open>markAsCompleted\<close> leaves the store as it is or is the completion followed by
  the status updates of the dependents.
\<close>

lemma Task_markAsCompleted_state:
  assumes "integrity s"
  shows "snd (Task_markAsCompleted rd t u s) = s
   \<or> snd (Task_markAsCompleted rd t u s)
       = fold updateTaskStatusBasedOnDependencies (dependent_rows t s)
           (s\<lparr>tasks := map (complete_row t u (clock s)) (tasks s)\<rparr>)"
proof (cases "Task_canCompleteTask t s = Inr True \<and> in_integer_range u")
  case True
  then show ?thesis
    using Task_markAsCompleted_steps[OF assms, of t u rd] by simp
next
  case False
  have "snd (Task_markAsCompleted rd t u s) = s"
  proof (cases "Task_canCompleteTask t s")
    case (Inl e)
    then show ?thesis by (simp add: Task_markAsCompleted_def)
  next
    case (Inr can)
    show ?thesis
    proof (cases can)
      case True
      then have "\<not> parameters_ok [t, u]"
        using False Inr by (simp add: parameters_ok_def)
      then show ?thesis
        using Inr True
        by (simp add: Task_markAsCompleted_def Task_update_def update_tasks_def
            prepare_status_Completed)
    next
      case False
      then show ?thesis using Inr by (simp add: Task_markAsCompleted_def)
    qed
  qed
  then show ?thesis by simp
qed

lemma Task_markAsCompleted_settled:
  assumes int: "integrity s" and ns: "statuses_set s" and c: "settled s"
  shows "settled (snd (Task_markAsCompleted rd t u s))"
    and "statuses_set (snd (Task_markAsCompleted rd t u s))"
proof -
  let ?sc = "s\<lparr>tasks := map (complete_row t u (clock s)) (tasks s)\<rparr>"
  let ?D = "set (dependent_rows t s)"
  let ?G = "\<lambda>r. recompute_row ?D ?sc (complete_row t u (clock s) r)"
  let ?s' = "s\<lparr>tasks := map ?G (tasks s)\<rparr>"
  have pkc: "primary_key_ok ?sc"
    using int by (simp add: keeps_keys_integrity integrity_def)
  have nsc: "statuses_set ?sc"
    using ns by (intro statuses_set_map) (simp_all add: complete_row_def)
  have eq: "fold updateTaskStatusBasedOnDependencies (dependent_rows t s) ?sc
              = ?sc\<lparr>tasks := map (recompute_row ?D ?sc) (tasks ?sc)\<rparr>"
    by (rule fold_updateTaskStatus[OF pkc nsc])
  then have s': "fold updateTaskStatusBasedOnDependencies (dependent_rows t s) ?sc = ?s'"
    by (simp add: comp_def)
  have h: "has_incomplete_dependency y ?s' = has_incomplete_dependency y ?sc" for y
    using has_incomplete_recompute_row[OF nsc, of y ?D] by (simp add: comp_def)
  have idG: "id_col (?G r) = id_col r" for r
    by (simp add: recompute_row_def complete_row_def)
  have "row_settled ?s' (?G r)" if r: "r \<in> set (tasks s)" for r
  proof (cases "id_col r \<in> ?D")
    case True
    have "id_col (complete_row t u (clock s) r) = id_col r"
      by (simp add: complete_row_def)
    then have "status (?G r) = next_status (has_incomplete_dependency (id_col r) ?sc)
                                  (status (complete_row t u (clock s) r))"
      using True status_recompute_row[of "complete_row t u (clock s) r" ?D ?sc] by simp
    then show ?thesis
      using next_status_consistent[of "has_incomplete_dependency (id_col r) ?sc"
          "status (complete_row t u (clock s) r)"]
      unfolding row_settled_def idG h by simp
  next
    case False
    have same: "has_incomplete_dependency (id_col r) ?sc = has_incomplete_dependency (id_col r) s"
    proof -
      have nt: "depends_on_task_id td \<noteq> t"
        if "td \<in> set (task_dependencies s)" "task_id td = id_col r" for td
        using False that by (force simp: dependent_rows_def)
      have "map (\<lambda>td. filter (\<lambda>x. id_col x = depends_on_task_id td \<and> status_ne_Completed (status x))
                         (map (complete_row t u (clock s)) (tasks s)))
               (filter (\<lambda>td. task_id td = id_col r) (task_dependencies s))
          = map (\<lambda>td. filter (\<lambda>x. id_col x = depends_on_task_id td \<and> status_ne_Completed (status x))
                         (tasks s))
               (filter (\<lambda>td. task_id td = id_col r) (task_dependencies s))"
        using nt by (intro map_cong refl filter_complete_row_other) auto
      then show ?thesis
        by (simp add: has_incomplete_dependency_def incomplete_dependencies_def)
    qed
    have rc: "row_settled s r"
      using c r by (simp add: settled_def list_all_iff)
    show ?thesis
    proof (cases "id_col r = t \<and> user_id r = Some u")
      case True
      then have "status (?G r) = Some Completed"
        using False by (simp add: recompute_row_def complete_row_def)
      then show ?thesis
        unfolding row_settled_def by simp
    next
      case no: False
      then have "?G r = r"
        using False by (auto simp: recompute_row_def complete_row_def)
      moreover have "has_incomplete_dependency (id_col r) ?s' = has_incomplete_dependency (id_col r) s"
        using h[of "id_col r"] same by (rule trans)
      then have "row_settled ?s' r"
        using rc by (simp add: row_settled_def)
      ultimately show ?thesis
        by simp
    qed
  qed
  then have "list_all (row_settled ?s') (map ?G (tasks s))"
    unfolding list_all_iff by auto
  then have "settled ?s'"
    unfolding settled_def by simp
  then show "settled (snd (Task_markAsCompleted rd t u s))"
    using Task_markAsCompleted_state[OF int, of rd t u] c unfolding s' by auto
  show "statuses_set (snd (Task_markAsCompleted rd t u s))"
    using Task_markAsCompleted_state[OF int, of rd t u] ns
      fold_updateTaskStatus_statuses_set[OF nsc, of "dependent_rows t s"]
    by auto
qed

text \<open>
  Claim C3, as stated: after every mutation entry point, task update among them, the
  property holds. It fails for the update. Task 1 depends on task 2, which is not
  Completed, and task 1 is Blocked; the request \<^verbatim>\<open>PUT /tasks/1 {"status": "In Progress"}\<close> is
  answered 200 and stores the status as sent, so task 1 has an incomplete dependency and is
  not Blocked. It fails for the deletion as well: task 1 depends on task 2 (not Completed)
  and on task 3 (Completed); deleting task 2 leaves task 1 Blocked with the single
  dependency on task 3, which is Completed. No status of either store is \<^verbatim>\<open>NULL\<close>.
\<close>

theorem C3_update_breaks_blocked_consistency:
  "\<forall>rd.
     blocked_consistent (three_tasks Blocked ToDo ToDo [dependency 1 2])
     \<and> statuses_set (three_tasks Blocked ToDo ToDo [dependency 1 2])
     \<and> TaskController_updateTask rd 1 1 [(''status'', Some (Text ''In Progress''))]
           (three_tasks Blocked ToDo ToDo [dependency 1 2])
         = (Json 200 ''Task updated successfully'',
            store [rewritten (example_task 1 None InProgress), example_task 2 None ToDo,
                   example_task 3 None ToDo]
              [dependency 1 2])
     \<and> \<not> blocked_consistent
            (store [rewritten (example_task 1 None InProgress), example_task 2 None ToDo,
                    example_task 3 None ToDo]
               [dependency 1 2])
     \<and> blocked_consistent (three_tasks Blocked ToDo Completed [dependency 1 2, dependency 1 3])
     \<and> statuses_set (three_tasks Blocked ToDo Completed [dependency 1 2, dependency 1 3])
     \<and> TaskController_deleteTask 2 1
           (three_tasks Blocked ToDo Completed [dependency 1 2, dependency 1 3])
         = (Json 200 ''Task deleted successfully'',
            store [example_task 1 None Blocked, example_task 3 None Completed] [dependency 1 3])
     \<and> \<not> blocked_consistent
            (store [example_task 1 None Blocked, example_task 3 None Completed] [dependency 1 3])"
  by (intro allI) code_simp

text \<open>
  Claim C3, amended: in a store where no task's status is \<^verbatim>\<open>NULL\<close>, \<^verbatim>\<open>AddDependency\<close>,
  \<^verbatim>\<open>RemoveDependency\<close> and \<^verbatim>\<open>MarkCompleted\<close> keep the property. If the store satisfies its
  constraints and the property before the call and has no \<^verbatim>\<open>NULL\<close> status, then after the
  call it satisfies the property and has no \<^verbatim>\<open>NULL\<close> status, whether the call succeeded or
  was rejected; this holds for the functions of the model and for the controllers that call
  them. The amended claim says nothing of the update, which stores the status it is given,
  nor of the deletion, nor of a store with a \<^verbatim>\<open>NULL\<close> status.
\<close>

theorem C3_blocked_consistency_preserved:
  assumes "integrity s" and "statuses_set s" and "blocked_consistent s"
  shows "blocked_consistent (snd (Task_addDependency t d u s))
     \<and> statuses_set (snd (Task_addDependency t d u s))
     \<and> blocked_consistent (snd (TaskController_addDependency t d u s))
     \<and> statuses_set (snd (TaskController_addDependency t d u s))
     \<and> blocked_consistent (snd (Task_removeDependency t d u s))
     \<and> statuses_set (snd (Task_removeDependency t d u s))
     \<and> blocked_consistent (snd (TaskController_removeDependency t d u s))
     \<and> statuses_set (snd (TaskController_removeDependency t d u s))
     \<and> blocked_consistent (snd (Task_markAsCompleted rd t u s))
     \<and> statuses_set (snd (Task_markAsCompleted rd t u s))
     \<and> blocked_consistent (snd (TaskController_markAsCompleted rd t u s))
     \<and> statuses_set (snd (TaskController_markAsCompleted rd t u s))"
proof -
  have pk: "primary_key_ok s"
    using assms(1) by (simp add: integrity_def)
  have c: "settled s"
    using assms(2,3) by (simp add: statuses_set_settled)
  note add = Task_addDependency_settled[OF pk assms(2) c, of t d u]
  note remove = Task_removeDependency_settled[OF pk assms(2) c, of t d u]
  note mark = Task_markAsCompleted_settled[OF assms(1,2) c, of rd t u]
  have a: "blocked_consistent (snd (Task_addDependency t d u s))"
    using add by (simp add: statuses_set_settled)
  have r: "blocked_consistent (snd (Task_removeDependency t d u s))"
    using remove by (simp add: statuses_set_settled)
  have m: "blocked_consistent (snd (Task_markAsCompleted rd t u s))"
    using mark by (simp add: statuses_set_settled)
  have ca: "blocked_consistent (snd (TaskController_addDependency t d u s))
      \<and> statuses_set (snd (TaskController_addDependency t d u s))"
    using TaskController_addDependency_state[of t d u s] a add(2) assms(2,3) by auto
  show ?thesis
    using a add(2) ca r remove(2) m mark(2)
    by (simp add: TaskController_removeDependency_state TaskController_markAsCompleted_state)
qed

text \<open>
  Task 1 is Blocked on task 2. Adding the dependency of 2 on 3 blocks task 2; removing the
  dependency of 1 on 2 sets task 1 to To Do; completing task 2 sets task 1 to To Do.
\<close>

theorem C3_blocked_consistency_preserved_witness:
  "\<forall>rd.
     snd (Task_addDependency 2 3 1 (three_tasks Blocked ToDo ToDo [dependency 1 2]))
       = store [example_task 1 None Blocked, rewritten (example_task 2 None Blocked),
                example_task 3 None ToDo]
           [dependency 1 2, dependency 2 3]
     \<and> blocked_consistent (snd (Task_addDependency 2 3 1 (three_tasks Blocked ToDo ToDo [dependency 1 2])))
     \<and> statuses_set (snd (Task_addDependency 2 3 1 (three_tasks Blocked ToDo ToDo [dependency 1 2])))
     \<and> blocked_consistent
          (snd (TaskController_addDependency 2 3 1 (three_tasks Blocked ToDo ToDo [dependency 1 2])))
     \<and> Task_removeDependency 1 2 1 (three_tasks Blocked ToDo ToDo [dependency 1 2])
       = (Inr (Some (dependency 1 2)),
          store [rewritten (example_task 1 None ToDo), example_task 2 None ToDo,
                 example_task 3 None ToDo] [])
     \<and> blocked_consistent
          (snd (Task_removeDependency 1 2 1 (three_tasks Blocked ToDo ToDo [dependency 1 2])))
     \<and> statuses_set
          (snd (Task_removeDependency 1 2 1 (three_tasks Blocked ToDo ToDo [dependency 1 2])))
     \<and> blocked_consistent
          (snd (TaskController_removeDependency 1 2 1 (three_tasks Blocked ToDo ToDo [dependency 1 2])))
     \<and> snd (Task_markAsCompleted rd 2 1 (three_tasks Blocked ToDo ToDo [dependency 1 2]))
       = store [rewritten (example_task 1 None ToDo), rewritten (example_task 2 None Completed),
                example_task 3 None ToDo]
           [dependency 1 2]
     \<and> blocked_consistent
          (snd (Task_markAsCompleted rd 2 1 (three_tasks Blocked ToDo ToDo [dependency 1 2])))
     \<and> statuses_set
          (snd (Task_markAsCompleted rd 2 1 (three_tasks Blocked ToDo ToDo [dependency 1 2])))
     \<and> blocked_consistent
          (snd (TaskController_markAsCompleted rd 2 1 (three_tasks Blocked ToDo ToDo [dependency 1 2])))"
proof
  fix rd :: reader
  let ?s = "three_tasks Blocked ToDo ToDo [dependency 1 2]"
  have i: "integrity ?s"
    by code_simp
  have n: "statuses_set ?s"
    by code_simp
  have c: "blocked_consistent ?s"
    by code_simp
  have added: "snd (Task_addDependency 2 3 1 ?s)
       = store [example_task 1 None Blocked, rewritten (example_task 2 None Blocked),
                example_task 3 None ToDo]
           [dependency 1 2, dependency 2 3]"
    by code_simp
  have removed: "Task_removeDependency 1 2 1 ?s
       = (Inr (Some (dependency 1 2)),
          store [rewritten (example_task 1 None ToDo), example_task 2 None ToDo,
                 example_task 3 None ToDo] [])"
    by code_simp
  have completed: "snd (Task_markAsCompleted rd 2 1 ?s)
       = store [rewritten (example_task 1 None ToDo), rewritten (example_task 2 None Completed),
                example_task 3 None ToDo]
           [dependency 1 2]"
    by code_simp
  note add = C3_blocked_consistency_preserved[OF i n c, of 2 3 1 rd]
  note remove = C3_blocked_consistency_preserved[OF i n c, of 1 2 1 rd]
  show "snd (Task_addDependency 2 3 1 ?s)
       = store [example_task 1 None Blocked, rewritten (example_task 2 None Blocked),
                example_task 3 None ToDo]
           [dependency 1 2, dependency 2 3]
     \<and> blocked_consistent (snd (Task_addDependency 2 3 1 ?s))
     \<and> statuses_set (snd (Task_addDependency 2 3 1 ?s))
     \<and> blocked_consistent (snd (TaskController_addDependency 2 3 1 ?s))
     \<and> Task_removeDependency 1 2 1 ?s
       = (Inr (Some (dependency 1 2)),
          store [rewritten (example_task 1 None ToDo), example_task 2 None ToDo,
                 example_task 3 None ToDo] [])
     \<and> blocked_consistent (snd (Task_removeDependency 1 2 1 ?s))
     \<and> statuses_set (snd (Task_removeDependency 1 2 1 ?s))
     \<and> blocked_consistent (snd (TaskController_removeDependency 1 2 1 ?s))
     \<and> snd (Task_markAsCompleted rd 2 1 ?s)
       = store [rewritten (example_task 1 None ToDo), rewritten (example_task 2 None Completed),
                example_task 3 None ToDo]
           [dependency 1 2]
     \<and> blocked_consistent (snd (Task_markAsCompleted rd 2 1 ?s))
     \<and> statuses_set (snd (Task_markAsCompleted rd 2 1 ?s))
     \<and> blocked_consistent (snd (TaskController_markAsCompleted rd 2 1 ?s))"
    using add remove added removed completed by blast
qed

section \<open>A dependency of a task on itself\<close>

lemma length_filter_key_le_1:
  "distinct (map f xs) \<Longrightarrow> length (filter (\<lambda>x. f x = a \<and> P x) xs) \<le> 1"
proof (induction xs)
  case Nil
  then show ?case by simp
next
  case (Cons x xs)
  show ?case
  proof (cases "f x = a")
    case True
    have "f y \<noteq> a" if "y \<in> set xs" for y
      using Cons.prems True that by (force simp: image_iff)
    then have "filter (\<lambda>y. f y = a \<and> P y) xs = []"
      by (simp add: filter_empty_conv)
    then show ?thesis by simp
  next
    case False
    then show ?thesis using Cons by simp
  qed
qed

lemma includes_not_found:
  "\<not> message_includes (Error ''One or both tasks not found or not owned by user'') ''circular dependency''"
  "message_includes (Error ''One or both tasks not found or not owned by user'') ''not found''"
  by code_simp+

text \<open>
  Claim C7, as stated: \<^verbatim>\<open>AddDependency(t, t)\<close> yields a self-dependency error. The code has
  no such error. With \<^verbatim>\<open>taskId = dependsOnTaskId\<close> the ownership query
  \<^verbatim>\<open>WHERE id IN ($1, $2)\<close> returns one row, not two, so the call throws the not-found
  error, which the controller answers with 404 \<^verbatim>\<open>Task not found\<close>.
\<close>

theorem C7_self_dependency_answered_not_found:
  "Task_addDependency 1 1 1 (three_tasks ToDo ToDo ToDo [])
     = (Inl (Error ''One or both tasks not found or not owned by user''),
        three_tasks ToDo ToDo ToDo [])
   \<and> TaskController_addDependency 1 1 1 (three_tasks ToDo ToDo ToDo [])
     = (Json 404 ''Task not found'', three_tasks ToDo ToDo ToDo [])"
  by code_simp

text \<open>
  Claim C7, amended: for every task id \<open>t\<close> in the range of \<^verbatim>\<open>INTEGER\<close>, so for the id of
  every existing task, \<^verbatim>\<open>AddDependency(t, t)\<close> is rejected by the first check, before the
  cycle search and before any write, with the error \<^verbatim>\<open>One or both tasks not found or not
  owned by user\<close> (404 \<^verbatim>\<open>Task not found\<close> from the controller), and the store, so the set of
  dependencies, is unchanged. (The caller's id is the key of a row of \<^verbatim>\<open>users\<close>, an
  \<^verbatim>\<open>INTEGER\<close> as well.)
\<close>

theorem C7_self_dependency_rejected:
  assumes "primary_key_ok s" and "in_integer_range t" and "in_integer_range u"
  shows "Task_addDependency t t u s
           = (Inl (Error ''One or both tasks not found or not owned by user''), s)
     \<and> TaskController_addDependency t t u s = (Json 404 ''Task not found'', s)"
proof -
  have "length (filter (\<lambda>r. id_col r = t \<and> user_id r = Some u) (tasks s)) \<le> 1"
    using assms(1) by (intro length_filter_key_le_1) (simp add: primary_key_ok_def task_ids_def)
  then have m: "Task_addDependency t t u s
           = (Inl (Error ''One or both tasks not found or not owned by user''), s)"
    using assms(2,3) by (simp add: Task_addDependency_def parameters_ok_def)
  have "addDependency_error (Error ''One or both tasks not found or not owned by user'')
          = Json 404 ''Task not found''"
    by (simp add: addDependency_error_def includes_not_found del: message_includes.simps)
  then show ?thesis
    using assms(2,3)
    by (simp add: m TaskController_addDependency_def Task_findById_def parameters_ok_def
        split: option.splits)
qed

theorem C7_self_dependency_rejected_witness:
  "Task_addDependency 2 2 1 (three_tasks ToDo ToDo ToDo [dependency 1 2])
     = (Inl (Error ''One or both tasks not found or not owned by user''),
        three_tasks ToDo ToDo ToDo [dependency 1 2])
   \<and> TaskController_addDependency 2 2 1 (three_tasks ToDo ToDo ToDo [dependency 1 2])
     = (Json 404 ''Task not found'', three_tasks ToDo ToDo ToDo [dependency 1 2])"
proof -
  have "primary_key_ok (three_tasks ToDo ToDo ToDo [dependency 1 2])"
    by code_simp
  moreover have "in_integer_range 2" "in_integer_range 1"
    by (simp_all add: in_integer_range_def)
  ultimately show ?thesis
    by (rule C7_self_dependency_rejected)
qed

text \<open>
  For an id outside the range of \<^verbatim>\<open>INTEGER\<close> the first query of the controller fails, the
  answer is 500, and again nothing is written.
\<close>

lemma addDependency_out_of_range:
  assumes "\<not> in_integer_range t"
  shows "Task_addDependency t d u s = (Inl (PgError NumericValueOutOfRange), s)"
    and "TaskController_addDependency t d u s = (Json 500 ''Failed to add dependency'', s)"
  using assms
  by (simp_all add: Task_addDependency_def TaskController_addDependency_def Task_findById_def
      parameters_ok_def addDependency_error_def)

section \<open>Removing a dependency that does not exist\<close>

text \<open>
  Claim C9, as stated: when no such dependency exists, \<^verbatim>\<open>RemoveDependency\<close> answers not
  found and writes no task's status. The code runs the status update of \<^verbatim>\<open>taskId\<close> before
  it looks at what the \<^verbatim>\<open>DELETE\<close> returned: task 1, Blocked with no dependency, is set to
  To Do by the failed call (and the trigger sets its \<^verbatim>\<open>updated_at\<close>). When the task is not
  the caller's the controller answers 500, not 404; and so it does, without a write, when
  \<^verbatim>\<open>dependsOnTaskId\<close> is outside the range of \<^verbatim>\<open>INTEGER\<close>, which makes the \<^verbatim>\<open>DELETE\<close> fail.
\<close>

theorem C9_failed_removeDependency_writes_status:
  "TaskController_removeDependency 1 2 1 (three_tasks Blocked ToDo ToDo [])
     = (Json 404 ''Dependency not found'',
        store [rewritten (example_task 1 None ToDo), example_task 2 None ToDo,
               example_task 3 None ToDo] [])
   \<and> store [rewritten (example_task 1 None ToDo), example_task 2 None ToDo,
            example_task 3 None ToDo] []
       \<noteq> three_tasks Blocked ToDo ToDo []
   \<and> TaskController_removeDependency 7 2 1 (three_tasks Blocked ToDo ToDo [])
     = (Json 500 ''Failed to remove dependency'', three_tasks Blocked ToDo ToDo [])
   \<and> TaskController_removeDependency 1 2147483648 1 (three_tasks Blocked ToDo ToDo [])
     = (Json 500 ''Failed to remove dependency'', three_tasks Blocked ToDo ToDo [])"
  by code_simp

text \<open>
  Claim C9, amended: for a task of the caller and a \<^verbatim>\<open>dependsOnTaskId\<close> in the range of
  \<^verbatim>\<open>INTEGER\<close> with no dependency row for the pair, \<^verbatim>\<open>RemoveDependency\<close> answers 404
  \<^verbatim>\<open>Dependency not found\<close>, and the store after the call is the store after
  \<^verbatim>\<open>updateTaskStatusBasedOnDependencies(taskId)\<close>: the dependencies, the users, the sequence
  and every task other than \<^verbatim>\<open>taskId\<close> are unchanged, and so is every column of \<^verbatim>\<open>taskId\<close>
  but its status and its \<^verbatim>\<open>updated_at\<close>. When the status of \<^verbatim>\<open>taskId\<close> already agrees with
  the dependencies the status update counts, nothing is written. What is written otherwise
  is the decision table of the status update (\<open>next_status\<close>) applied to the row of
  \<^verbatim>\<open>taskId\<close>, with the time of the update as \<^verbatim>\<open>updated_at\<close>.
\<close>

theorem C9_failed_removeDependency_only_recomputes_status:
  assumes own: "Task_findById t u s = Inr (Some r)"
    and range: "in_integer_range d"
    and none: "filter (\<lambda>td. task_id td = t \<and> depends_on_task_id td = d) (task_dependencies s) = []"
  shows "TaskController_removeDependency t d u s
           = (Json 404 ''Dependency not found'', updateTaskStatusBasedOnDependencies t s)
     \<and> task_dependencies (updateTaskStatusBasedOnDependencies t s) = task_dependencies s
     \<and> users (updateTaskStatusBasedOnDependencies t s) = users s
     \<and> tasks_id_seq (updateTaskStatusBasedOnDependencies t s) = tasks_id_seq s
     \<and> clock (updateTaskStatusBasedOnDependencies t s) = clock s
     \<and> filter (\<lambda>r. id_col r \<noteq> t) (tasks (updateTaskStatusBasedOnDependencies t s))
         = filter (\<lambda>r. id_col r \<noteq> t) (tasks s)
     \<and> map (\<lambda>r. r\<lparr>status := None, updated_at := None\<rparr>)
           (tasks (updateTaskStatusBasedOnDependencies t s))
         = map (\<lambda>r. r\<lparr>status := None, updated_at := None\<rparr>) (tasks s)
     \<and> (list_all (\<lambda>r. (status r = Some Blocked)
                       = (has_incomplete_dependency t s \<and> status r \<noteq> Some Completed))
            (filter (\<lambda>r. id_col r = t) (tasks s))
          \<longrightarrow> updateTaskStatusBasedOnDependencies t s = s)
     \<and> (primary_key_ok s
          \<longrightarrow> updateTaskStatusBasedOnDependencies t s
                = s\<lparr>tasks := map (recompute_row {t} s) (tasks s)\<rparr>)"
proof -
  note o = Task_findById_Some[OF own]
  have p: "parameters_ok [t, u]" "parameters_ok [t, d]"
    using o(1) range by (simp_all add: parameters_ok_def)
  have ne: "filter (\<lambda>r. id_col r = t \<and> user_id r = Some u) (tasks s) \<noteq> []"
    using o(3,4,5) by (auto simp: filter_empty_conv)
  have keep: "filter (\<lambda>td. \<not> (task_id td = t \<and> depends_on_task_id td = d)) (task_dependencies s)
                = task_dependencies s"
    using none by (auto simp: filter_empty_conv filter_id_conv)
  have keep': "s\<lparr>task_dependencies :=
                   filter (\<lambda>td. \<not> (task_id td = t \<and> depends_on_task_id td = d)) (task_dependencies s)\<rparr>
                = s"
    by (simp only: keep) simp
  have m: "Task_removeDependency t d u s = (Inr None, updateTaskStatusBasedOnDependencies t s)"
    using ne p unfolding Task_removeDependency_def Let_def keep' none
    by (simp add: first_row_def)
  have c: "TaskController_removeDependency t d u s
           = (Json 404 ''Dependency not found'', updateTaskStatusBasedOnDependencies t s)"
    by (simp add: TaskController_removeDependency_def m)
  have rows: "tasks (updateTaskStatusBasedOnDependencies t s) = tasks s
      \<or> (\<exists>st. tasks (updateTaskStatusBasedOnDependencies t s)
          = map (\<lambda>r. if id_col r = t then r\<lparr>status := Some st, updated_at := Some (clock s)\<rparr> else r)
              (tasks s))"
    using updateTaskStatus_cases[of t s] by auto
  have others: "filter (\<lambda>r. id_col r \<noteq> t) (tasks (updateTaskStatusBasedOnDependencies t s))
         = filter (\<lambda>r. id_col r \<noteq> t) (tasks s)"
  proof -
    have "map (\<lambda>r. if id_col r = t then r\<lparr>status := Some st, updated_at := Some (clock s)\<rparr> else r)
            (filter (\<lambda>x. id_col x \<noteq> t) (tasks s)) = filter (\<lambda>r. id_col r \<noteq> t) (tasks s)" for st
      by (intro map_idI) simp
    then show ?thesis
      using rows by (auto simp: filter_map comp_def)
  qed
  have columns: "map (\<lambda>r. r\<lparr>status := None, updated_at := None\<rparr>)
           (tasks (updateTaskStatusBasedOnDependencies t s))
         = map (\<lambda>r. r\<lparr>status := None, updated_at := None\<rparr>) (tasks s)"
    using rows by auto
  have same: "updateTaskStatusBasedOnDependencies t s = s"
    if "list_all (\<lambda>r. (status r = Some Blocked)
                       = (has_incomplete_dependency t s \<and> status r \<noteq> Some Completed))
            (filter (\<lambda>r. id_col r = t) (tasks s))"
    using that
    by (cases "filter (\<lambda>r. id_col r = t) (tasks s)")
       (auto simp: updateTaskStatusBasedOnDependencies_def has_incomplete_dependency_def Let_def)
  show ?thesis
    using c others columns same updateTaskStatus_rows[of s t]
    by (intro conjI impI) simp_all
qed

theorem C9_failed_removeDependency_only_recomputes_status_witness:
  "TaskController_removeDependency 1 2 1 (three_tasks Blocked ToDo ToDo [])
     = (Json 404 ''Dependency not found'',
        updateTaskStatusBasedOnDependencies 1 (three_tasks Blocked ToDo ToDo []))
   \<and> task_dependencies (updateTaskStatusBasedOnDependencies 1 (three_tasks Blocked ToDo ToDo []))
     = task_dependencies (three_tasks Blocked ToDo ToDo [])
   \<and> filter (\<lambda>r. id_col r \<noteq> 1)
        (tasks (updateTaskStatusBasedOnDependencies 1 (three_tasks Blocked ToDo ToDo [])))
     = filter (\<lambda>r. id_col r \<noteq> 1) (tasks (three_tasks Blocked ToDo ToDo []))
   \<and> map (\<lambda>r. r\<lparr>status := None, updated_at := None\<rparr>)
        (tasks (updateTaskStatusBasedOnDependencies 1 (three_tasks Blocked ToDo ToDo [])))
     = map (\<lambda>r. r\<lparr>status := None, updated_at := None\<rparr>) (tasks (three_tasks Blocked ToDo ToDo []))
   \<and> updateTaskStatusBasedOnDependencies 1 (three_tasks Blocked ToDo ToDo [])
     = (three_tasks Blocked ToDo ToDo [])
         \<lparr>tasks := map (recompute_row {1} (three_tasks Blocked ToDo ToDo []))
                     (tasks (three_tasks Blocked ToDo ToDo []))\<rparr>
   \<and> updateTaskStatusBasedOnDependencies 1 (three_tasks ToDo ToDo ToDo [])
     = three_tasks ToDo ToDo ToDo []"
proof -
  have own: "Task_findById 1 1 (three_tasks Blocked ToDo ToDo [])
               = Inr (Some (example_task 1 None Blocked))"
    "Task_findById 1 1 (three_tasks ToDo ToDo ToDo []) = Inr (Some (example_task 1 None ToDo))"
    by code_simp+
  have range: "in_integer_range 2"
    by (simp add: in_integer_range_def)
  have none: "filter (\<lambda>td. task_id td = 1 \<and> depends_on_task_id td = 2)
                (task_dependencies (three_tasks Blocked ToDo ToDo [])) = []"
    "filter (\<lambda>td. task_id td = 1 \<and> depends_on_task_id td = 2)
                (task_dependencies (three_tasks ToDo ToDo ToDo [])) = []"
    by (simp_all add: three_tasks_def store_def)
  have agree: "list_all (\<lambda>r. (status r = Some Blocked)
                 = (has_incomplete_dependency 1 (three_tasks ToDo ToDo ToDo [])
                    \<and> status r \<noteq> Some Completed))
            (filter (\<lambda>r. id_col r = 1) (tasks (three_tasks ToDo ToDo ToDo [])))"
    by code_simp
  have pk: "primary_key_ok (three_tasks Blocked ToDo ToDo [])"
    by code_simp
  note blocked = C9_failed_removeDependency_only_recomputes_status[OF own(1) range none(1)]
  note agreeing = C9_failed_removeDependency_only_recomputes_status[OF own(2) range none(2)]
  have "updateTaskStatusBasedOnDependencies 1 (three_tasks ToDo ToDo ToDo [])
     = three_tasks ToDo ToDo ToDo []"
    using agreeing agree by blast
  then show ?thesis
    using blocked pk by blast
qed

section \<open>Deleting a task\<close>

text \<open>
  What the \<^verbatim>\<open>DELETE\<close> does remove: for a task of the caller, the task, every task that names
  it as parent, and every dependency row with it on either side; and the rows that remain
  still satisfy the foreign keys.
\<close>

lemma cascade_closed:
  "set ids \<subseteq> set (cascade rows ids)"
  "r \<in> set rows \<Longrightarrow> parent_task_id r = Some p \<Longrightarrow> p \<in> set (cascade rows ids)
     \<Longrightarrow> id_col r \<in> set (cascade rows ids)"
proof (induction rows ids rule: cascade.induct)
  case (1 rows ids)
  {
    case 1
    show ?case
    proof (cases "referencing_ids rows ids = []")
      case True
      then show ?thesis by (simp add: cascade.simps)
    next
      case False
      then show ?thesis
        using "1.IH"(1)[OF False] by (subst cascade.simps) auto
    qed
  next
    case 2
    show ?case
    proof (cases "referencing_ids rows ids = []")
      case True
      then have c: "cascade rows ids = ids" by (simp add: cascade.simps)
      have "id_col r \<in> set ids"
      proof (rule ccontr)
        assume "id_col r \<notin> set ids"
        then have "id_col r \<in> set (referencing_ids rows ids)"
          using 2 c by (auto simp: referencing_ids_def)
        then show False using True by simp
      qed
      then show ?thesis using c by simp
    next
      case False
      then have c: "cascade rows ids = cascade rows (ids @ referencing_ids rows ids)"
        by (subst cascade.simps) simp
      show ?thesis
        using "1.IH"(2)[OF False 2(1,2)] 2(3) unfolding c by simp
    qed
  }
qed

lemma first_row_filter: "first_row (filter P xs) = find P xs"
  by (induction xs) (simp_all add: first_row_def)

lemma Task_delete_cascades:
  assumes "Task_findById t u s = Inr (Some r)"
  shows "fst (Task_delete t u s) = Inr (Some r)"
    and "t \<notin> set (task_ids (snd (Task_delete t u s)))"
    and "\<forall>q \<in> set (tasks (snd (Task_delete t u s))).
           parent_task_id q \<noteq> Some t"
    and "\<forall>td \<in> set (task_dependencies (snd (Task_delete t u s))).
           task_id td \<noteq> t \<and> depends_on_task_id td \<noteq> t"
    and "foreign_keys_ok s \<Longrightarrow> foreign_keys_ok (snd (Task_delete t u s))"
proof -
  let ?ret = "filter (\<lambda>q. id_col q = t \<and> user_id q = Some u) (tasks s)"
  let ?D = "cascade (tasks s) (map id_col ?ret)"
  note o = Task_findById_Some[OF assms]
  have "r \<in> set ?ret"
    using o(3,4,5) by simp
  then have ne: "?ret \<noteq> []" and "t \<in> set (map id_col ?ret)"
    by (force simp: filter_empty_conv)+
  then have tD: "t \<in> set ?D"
    using cascade_closed(1)[of "map id_col ?ret" "tasks s"] by blast
  have s': "snd (Task_delete t u s) = delete_tasks (map id_col ?ret) s"
    using ne o(1) by (simp add: Task_delete_def Let_def)
  have "first_row ?ret = find (\<lambda>q. id_col q = t \<and> user_id q = Some u) (tasks s)"
    by (rule first_row_filter)
  then show "fst (Task_delete t u s) = Inr (Some r)"
    using o(1,2) by (simp add: Task_delete_def Let_def)
  show "t \<notin> set (task_ids (snd (Task_delete t u s)))"
    using tD by (auto simp: s' delete_tasks_def Let_def task_ids_def)
  show "\<forall>q \<in> set (tasks (snd (Task_delete t u s))). parent_task_id q \<noteq> Some t"
    using tD cascade_closed(2)[of _ "tasks s" t "map id_col ?ret"]
    by (auto simp: s' delete_tasks_def Let_def)
  show "\<forall>td \<in> set (task_dependencies (snd (Task_delete t u s))).
           task_id td \<noteq> t \<and> depends_on_task_id td \<noteq> t"
    using tD by (auto simp: s' delete_tasks_def Let_def)
  show "foreign_keys_ok (snd (Task_delete t u s))" if fk: "foreign_keys_ok s"
  proof -
    have par: "references_ok (map id_col (filter (\<lambda>t. id_col t \<notin> set ?D) (tasks s))) (parent_task_id q)"
      if q: "q \<in> set (tasks s)" "id_col q \<notin> set ?D" for q
    proof (cases "parent_task_id q")
      case None
      then show ?thesis by (simp add: references_ok_def)
    next
      case (Some p)
      then have "p \<notin> set ?D"
        using cascade_closed(2)[OF q(1) Some] q(2) by blast
      moreover have "p \<in> set (map id_col (tasks s))"
        using fk q(1) Some by (auto simp: foreign_keys_ok_def list_all_iff references_ok_def task_ids_def)
      ultimately show ?thesis
        using Some by (auto simp: references_ok_def)
    qed
    show ?thesis
      using fk par
      by (auto simp: s' delete_tasks_def Let_def foreign_keys_ok_def list_all_iff task_ids_def)
  qed
qed

text \<open>
  Claim C4. \<^verbatim>\<open>DeleteTask\<close> must re-evaluate every former predecessor of the deleted task, so
  that a task Blocked solely on the deleted task ends with status To Do. The code only
  issues the \<^verbatim>\<open>DELETE\<close>: the cascade removes task 2 and the dependency 1 \<rightarrow> 2, and task 1
  stays Blocked with no dependency left. Re-evaluating task 1 in that store would set it to
  To Do, and the sibling path does so: removing the same dependency with
  \<^verbatim>\<open>RemoveDependency\<close> leaves task 1 with status To Do.
\<close>

theorem C4_delete_leaves_dependent_blocked:
  "TaskController_deleteTask 2 1 (three_tasks Blocked ToDo ToDo [dependency 1 2])
     = (Json 200 ''Task deleted successfully'',
        store [example_task 1 None Blocked, example_task 3 None ToDo] [])
   \<and> updateTaskStatusBasedOnDependencies 1
        (store [example_task 1 None Blocked, example_task 3 None ToDo] [])
     = store [rewritten (example_task 1 None ToDo), example_task 3 None ToDo] []
   \<and> TaskController_removeDependency 1 2 1 (three_tasks Blocked ToDo ToDo [dependency 1 2])
     = (Json 200 ''Dependency removed successfully'',
        store [rewritten (example_task 1 None ToDo), example_task 2 None ToDo,
               example_task 3 None ToDo] [])"
  by code_simp

section \<open>Task update\<close>



















section \<open>Nesting depth\<close>

text \<open>
  The check of the two creation paths: a parent that is itself a subtask is refused, and
  nothing is written.
\<close>

lemma createTask_rejects_nested_parent:
  assumes "Task_findById p u s = Inr (Some parentTask)" "truthy (Some p)"
    "truthy (parent_task_id parentTask)"
  shows "TaskController_createTask u ti de (Some p) du pr st s = (Json 400 ''Invalid parent task'', s)"
    and "TaskController_createSubtask p u ti de du pr s = (Json 400 ''Invalid parent task'', s)"
  using assms by (simp_all add: TaskController_createTask_def TaskController_createSubtask_def)

text \<open>
  Claim C5. Nesting depth must never exceed 1 after any mutation, task update included.
  \<^verbatim>\<open>createTask\<close> refuses the subtask 2 as a parent (400 \<^verbatim>\<open>Invalid parent task\<close>; \<^verbatim>\<open>Only one
  level of nesting is allowed\<close>), but the update endpoint assigns \<^verbatim>\<open>parent_task_id\<close> with
  no such check: \<^verbatim>\<open>PUT /tasks/3 {"parent_task_id": 2}\<close> is answered 200 and task 3 becomes a
  subtask of the subtask 2.
\<close>

theorem C5_update_reparents_under_a_subtask:
  "nesting_depth_ok (two_level_store (example_task 3 None ToDo))
   \<and> TaskController_createTask 1 ''task'' None (Some 2) None None None
        (two_level_store (example_task 3 None ToDo))
       = (Json 400 ''Invalid parent task'', two_level_store (example_task 3 None ToDo))
   \<and> TaskController_updateTask rd 3 1 [(''parent_task_id'', Some (Integer 2))]
        (two_level_store (example_task 3 None ToDo))
       = (Json 200 ''Task updated successfully'',
          two_level_store (rewritten (example_task 3 (Some 2) ToDo)))
   \<and> \<not> nesting_depth_ok (two_level_store (rewritten (example_task 3 (Some 2) ToDo)))"
  by code_simp

end
